theory Spec2Isabelle
  imports Complex_Main "HOL-Library.Extended_Nat"
begin

section \<open>Grid data model (types/grid.types.ts)\<close>

text \<open>
  The grid is the array of rows \<open>Node[][]\<close>. A \<open>Node\<close> object is referred to by
  its position \<open>(row, col)\<close>: the grid built by \<open>createGrid\<close> stores at
  \<open>grid[row][col]\<close> the node whose fields \<open>row\<close> and \<open>col\<close> are that position, and
  the search functions compare nodes by identity only. The other fields are the record
  stored at that position, which the search functions read and update in place;
  \<open>previousNode\<close> is the position of the referenced node, or \<open>None\<close> for \<open>null\<close>.
  The numeric fields hold \<open>Infinity\<close> or a natural number, hence \<open>enat\<close>.
\<close>

datatype CellType = Empty | Wall | Start | End | Visited | Path | Frontier

type_synonym pos = "nat \<times> nat"

record node =
  type :: CellType
  isVisited :: bool
  distance :: enat
  heuristic :: enat
  previousNode :: "pos option"

text \<open>\<open>rows\<close> is \<open>grid.length\<close>, \<open>cols\<close> is \<open>grid[0].length\<close>, \<open>cell g (r, c)\<close> is \<open>grid[r][c]\<close>.\<close>

type_synonym grid = "node list list"

definition rows :: "grid \<Rightarrow> nat" where
  "rows g = length g"

definition cols :: "grid \<Rightarrow> nat" where
  "cols g = length (g ! 0)"

definition cell :: "grid \<Rightarrow> pos \<Rightarrow> node" where
  "cell g p = g ! fst p ! snd p"

text \<open>Every row has the length of the first one.\<close>

definition rect :: "grid \<Rightarrow> bool" where
  "rect g = list_all (\<lambda>row. length row = cols g) g"

record PathfindingResult =
  visitedNodesInOrder :: "pos list"
  shortestPath :: "pos list"
  success :: bool

definition upd :: "grid \<Rightarrow> pos \<Rightarrow> (node \<Rightarrow> node) \<Rightarrow> grid" where
  "upd g p f = g[fst p := (g ! fst p)[snd p := f (cell g p)]]"

definition in_bounds :: "grid \<Rightarrow> pos \<Rightarrow> bool" where
  "in_bounds g p = (fst p < rows g \<and> snd p < cols g)"

text \<open>The positions of the grid in the order of
  \<open>for (const row of grid) for (const node of row)\<close>, and a pass over the grid that
  rewrites every node.\<close>

definition all_cells :: "grid \<Rightarrow> pos list" where
  "all_cells g = List.product [0..<rows g] [0..<cols g]"

definition map_cells :: "(node \<Rightarrow> node) \<Rightarrow> grid \<Rightarrow> grid" where
  "map_cells f g = map (map f) g"

section \<open>Shared primitives (algorithms/pathfinding.ts)\<close>

text \<open>Neighbours in the fixed order up, right, down, left; the comparisons with
  \<open>length - 1\<close> are made over the integers, as in the source.\<close>

definition getNeighbors :: "pos \<Rightarrow> grid \<Rightarrow> pos list" where
  "getNeighbors nd g = (case nd of (row, col) \<Rightarrow>
     (if row > 0 then [(row - 1, col)] else []) @
     (if int col < int (cols g) - 1 then [(row, col + 1)] else []) @
     (if int row < int (rows g) - 1 then [(row + 1, col)] else []) @
     (if col > 0 then [(row, col - 1)] else []))"

definition manhattanDistance :: "pos \<Rightarrow> pos \<Rightarrow> enat" where
  "manhattanDistance nodeA nodeB =
     enat (nat (\<bar>int (fst nodeA) - int (fst nodeB)\<bar> + \<bar>int (snd nodeA) - int (snd nodeB)\<bar>))"

text \<open>\<open>reconstructPath\<close> follows \<open>previousNode\<close> until \<open>null\<close>; on a cyclic chain the
  source loops forever, which is the value \<open>None\<close> here.\<close>

partial_function (option) reconstructPath_loop :: "grid \<Rightarrow> pos option \<Rightarrow> pos list \<Rightarrow> pos list option" where
  "reconstructPath_loop g currentNode path =
     (case currentNode of
        None \<Rightarrow> Some path
      | Some n \<Rightarrow> reconstructPath_loop g (previousNode (cell g n)) (n # path))"

declare reconstructPath_loop.simps [code]

definition reconstructPath :: "grid \<Rightarrow> pos \<Rightarrow> pos list option" where
  "reconstructPath g endNode = reconstructPath_loop g (Some endNode) []"

text \<open>A \<open>while\<close> loop whose body either returns from the function (\<open>Inl\<close>) or hands
  the next state to the loop test (\<open>Inr\<close>); a body that does not return makes the loop
  not return.\<close>

partial_function (option) while_loop :: "('s \<Rightarrow> ('r + 's) option) \<Rightarrow> 's \<Rightarrow> 'r option" where
  "while_loop body s =
     (case body s of
        None \<Rightarrow> None
      | Some (Inl r) \<Rightarrow> Some r
      | Some (Inr s') \<Rightarrow> while_loop body s')"

declare while_loop.simps [code]

definition found :: "grid \<Rightarrow> pos list \<Rightarrow> pos \<Rightarrow> ((PathfindingResult \<times> grid) + 's) option" where
  "found g vis endNode =
     map_option (\<lambda>p. Inl (\<lparr>visitedNodesInOrder = vis, shortestPath = p, success = True\<rparr>, g))
       (reconstructPath g endNode)"

definition not_found :: "grid \<Rightarrow> pos list \<Rightarrow> PathfindingResult \<times> grid" where
  "not_found g vis = (\<lparr>visitedNodesInOrder = vis, shortestPath = [], success = False\<rparr>, g)"

section \<open>Breadth-first search\<close>

definition bfs_neighbor :: "pos \<Rightarrow> pos \<Rightarrow> grid \<times> pos list \<Rightarrow> grid \<times> pos list" where
  "bfs_neighbor currentNode neighbor = (\<lambda>(g, queue).
     if \<not> isVisited (cell g neighbor) \<and> type (cell g neighbor) \<noteq> Wall
     then (upd g neighbor (\<lambda>n. n\<lparr>isVisited := True, previousNode := Some currentNode,
                                  distance := distance (cell g currentNode) + 1\<rparr>),
           queue @ [neighbor])
     else (g, queue))"

definition bfs_body :: "pos \<Rightarrow> grid \<times> pos list \<times> pos list \<Rightarrow>
    ((PathfindingResult \<times> grid) + (grid \<times> pos list \<times> pos list)) option" where
  "bfs_body endNode = (\<lambda>(g, queue, vis).
     case queue of
       [] \<Rightarrow> Some (Inl (not_found g vis))
     | currentNode # queue' \<Rightarrow>
         if type (cell g currentNode) = Wall then Some (Inr (g, queue', vis))
         else if currentNode = endNode then found g (vis @ [currentNode]) endNode
         else (case fold (bfs_neighbor currentNode) (getNeighbors currentNode g) (g, queue') of
                 (g', queue'') \<Rightarrow> Some (Inr (g', queue'', vis @ [currentNode]))))"

definition bfs :: "grid \<Rightarrow> pos \<Rightarrow> pos \<Rightarrow> (PathfindingResult \<times> grid) option" where
  "bfs g startNode endNode =
     while_loop (bfs_body endNode)
       (upd g startNode (\<lambda>n. n\<lparr>isVisited := True, distance := 0\<rparr>), [startNode], [])"

section \<open>Depth-first search\<close>

text \<open>The stack is a list whose last element is the top (\<open>push\<close>/\<open>pop\<close>).\<close>

definition dfs_neighbor :: "pos \<Rightarrow> pos \<Rightarrow> grid \<times> pos list \<Rightarrow> grid \<times> pos list" where
  "dfs_neighbor currentNode neighbor = (\<lambda>(g, stack).
     if \<not> isVisited (cell g neighbor) \<and> type (cell g neighbor) \<noteq> Wall
     then (upd g neighbor (\<lambda>n. n\<lparr>isVisited := True, previousNode := Some currentNode\<rparr>),
           stack @ [neighbor])
     else (g, stack))"

definition dfs_body :: "pos \<Rightarrow> grid \<times> pos list \<times> pos list \<Rightarrow>
    ((PathfindingResult \<times> grid) + (grid \<times> pos list \<times> pos list)) option" where
  "dfs_body endNode = (\<lambda>(g, stack, vis).
     if stack = [] then Some (Inl (not_found g vis))
     else let currentNode = last stack; stack' = butlast stack in
       if type (cell g currentNode) = Wall then Some (Inr (g, stack', vis))
       else if currentNode = endNode then found g (vis @ [currentNode]) endNode
       else (case fold (dfs_neighbor currentNode) (rev (getNeighbors currentNode g)) (g, stack') of
               (g', stack'') \<Rightarrow> Some (Inr (g', stack'', vis @ [currentNode]))))"

definition dfs :: "grid \<Rightarrow> pos \<Rightarrow> pos \<Rightarrow> (PathfindingResult \<times> grid) option" where
  "dfs g startNode endNode =
     while_loop (dfs_body endNode)
       (upd g startNode (\<lambda>n. n\<lparr>isVisited := True\<rparr>), [startNode], [])"

section \<open>A* search\<close>

text \<open>\<open>Array.prototype.sort\<close> is a stable sort; with the comparator \<open>fA - fB\<close> it
  orders by the key \<open>f\<close>, and so does \<open>sort_key\<close>.\<close>

definition astar_neighbor :: "pos \<Rightarrow> pos \<Rightarrow> pos \<Rightarrow> grid \<times> pos list \<Rightarrow> grid \<times> pos list" where
  "astar_neighbor endNode currentNode neighbor = (\<lambda>(g, openSet).
     if isVisited (cell g neighbor) \<or> type (cell g neighbor) = Wall then (g, openSet)
     else let tentativeDistance = distance (cell g currentNode) + 1 in
       if tentativeDistance < distance (cell g neighbor)
       then (upd g neighbor (\<lambda>n. n\<lparr>distance := tentativeDistance,
                                    heuristic := manhattanDistance neighbor endNode,
                                    previousNode := Some currentNode\<rparr>),
             if neighbor \<in> set openSet then openSet else openSet @ [neighbor])
       else (g, openSet))"

definition astar_body :: "pos \<Rightarrow> grid \<times> pos list \<times> pos list \<Rightarrow>
    ((PathfindingResult \<times> grid) + (grid \<times> pos list \<times> pos list)) option" where
  "astar_body endNode = (\<lambda>(g, openSet, vis).
     case sort_key (\<lambda>a. distance (cell g a) + heuristic (cell g a)) openSet of
       [] \<Rightarrow> Some (Inl (not_found g vis))
     | currentNode # openSet' \<Rightarrow>
         if type (cell g currentNode) = Wall then Some (Inr (g, openSet', vis))
         else if isVisited (cell g currentNode) then Some (Inr (g, openSet', vis))
         else let g1 = upd g currentNode (\<lambda>n. n\<lparr>isVisited := True\<rparr>) in
           if currentNode = endNode then found g1 (vis @ [currentNode]) endNode
           else (case fold (astar_neighbor endNode currentNode) (getNeighbors currentNode g1) (g1, openSet') of
                   (g', openSet'') \<Rightarrow> Some (Inr (g', openSet'', vis @ [currentNode]))))"

definition astar :: "grid \<Rightarrow> pos \<Rightarrow> pos \<Rightarrow> (PathfindingResult \<times> grid) option" where
  "astar g startNode endNode =
     while_loop (astar_body endNode)
       (upd g startNode (\<lambda>n. n\<lparr>distance := 0, heuristic := manhattanDistance startNode endNode\<rparr>),
        [startNode], [])"

section \<open>Greedy best-first search\<close>

definition greedy_neighbor :: "pos \<Rightarrow> pos \<Rightarrow> pos \<Rightarrow> grid \<times> pos list \<Rightarrow> grid \<times> pos list" where
  "greedy_neighbor endNode currentNode neighbor = (\<lambda>(g, openSet).
     if isVisited (cell g neighbor) \<or> type (cell g neighbor) = Wall then (g, openSet)
     else if heuristic (cell g neighbor) = \<infinity>
       then (upd g neighbor (\<lambda>n. n\<lparr>heuristic := manhattanDistance neighbor endNode,
                                    previousNode := Some currentNode\<rparr>),
             openSet @ [neighbor])
       else (g, openSet))"

definition greedy_body :: "pos \<Rightarrow> grid \<times> pos list \<times> pos list \<Rightarrow>
    ((PathfindingResult \<times> grid) + (grid \<times> pos list \<times> pos list)) option" where
  "greedy_body endNode = (\<lambda>(g, openSet, vis).
     case sort_key (\<lambda>a. heuristic (cell g a)) openSet of
       [] \<Rightarrow> Some (Inl (not_found g vis))
     | currentNode # openSet' \<Rightarrow>
         if type (cell g currentNode) = Wall then Some (Inr (g, openSet', vis))
         else if isVisited (cell g currentNode) then Some (Inr (g, openSet', vis))
         else let g1 = upd g currentNode (\<lambda>n. n\<lparr>isVisited := True\<rparr>) in
           if currentNode = endNode then found g1 (vis @ [currentNode]) endNode
           else (case fold (greedy_neighbor endNode currentNode) (getNeighbors currentNode g1) (g1, openSet') of
                   (g', openSet'') \<Rightarrow> Some (Inr (g', openSet'', vis @ [currentNode]))))"

definition greedyBFS :: "grid \<Rightarrow> pos \<Rightarrow> pos \<Rightarrow> (PathfindingResult \<times> grid) option" where
  "greedyBFS g startNode endNode =
     while_loop (greedy_body endNode)
       (upd g startNode (\<lambda>n. n\<lparr>heuristic := manhattanDistance startNode endNode\<rparr>),
        [startNode], [])"

section \<open>Uniform-cost search\<close>

definition ucs_neighbor :: "pos \<Rightarrow> pos \<Rightarrow> grid \<times> pos list \<Rightarrow> grid \<times> pos list" where
  "ucs_neighbor currentNode neighbor = (\<lambda>(g, openSet).
     if isVisited (cell g neighbor) \<or> type (cell g neighbor) = Wall then (g, openSet)
     else let tentativeDistance = distance (cell g currentNode) + 1 in
       if tentativeDistance < distance (cell g neighbor)
       then (upd g neighbor (\<lambda>n. n\<lparr>distance := tentativeDistance,
                                    previousNode := Some currentNode\<rparr>),
             if neighbor \<in> set openSet then openSet else openSet @ [neighbor])
       else (g, openSet))"

definition ucs_body :: "pos \<Rightarrow> grid \<times> pos list \<times> pos list \<Rightarrow>
    ((PathfindingResult \<times> grid) + (grid \<times> pos list \<times> pos list)) option" where
  "ucs_body endNode = (\<lambda>(g, openSet, vis).
     case sort_key (\<lambda>a. distance (cell g a)) openSet of
       [] \<Rightarrow> Some (Inl (not_found g vis))
     | currentNode # openSet' \<Rightarrow>
         if type (cell g currentNode) = Wall then Some (Inr (g, openSet', vis))
         else if isVisited (cell g currentNode) then Some (Inr (g, openSet', vis))
         else let g1 = upd g currentNode (\<lambda>n. n\<lparr>isVisited := True\<rparr>) in
           if currentNode = endNode then found g1 (vis @ [currentNode]) endNode
           else (case fold (ucs_neighbor currentNode) (getNeighbors currentNode g1) (g1, openSet') of
                   (g', openSet'') \<Rightarrow> Some (Inr (g', openSet'', vis @ [currentNode]))))"

definition uniformCostSearch :: "grid \<Rightarrow> pos \<Rightarrow> pos \<Rightarrow> (PathfindingResult \<times> grid) option" where
  "uniformCostSearch g startNode endNode =
     while_loop (ucs_body endNode)
       (upd g startNode (\<lambda>n. n\<lparr>distance := 0\<rparr>), [startNode], [])"

section \<open>Iterative-deepening depth-first search\<close>

text \<open>\<open>depthLimitedSearch\<close> returns its success flag together with the store and the
  shared \<open>visitedNodes\<close> array as it leaves them. The \<open>for\<close> loop over the neighbours
  is \<open>dls_neighbors\<close>, which stops at the first successful recursive call.\<close>

function depthLimitedSearch :: "grid \<Rightarrow> pos \<Rightarrow> pos \<Rightarrow> nat \<Rightarrow> pos list \<Rightarrow> nat \<Rightarrow> bool \<times> grid \<times> pos list"
  and dls_neighbors :: "grid \<Rightarrow> pos \<Rightarrow> pos list \<Rightarrow> pos \<Rightarrow> nat \<Rightarrow> pos list \<Rightarrow> nat \<Rightarrow> bool \<times> grid \<times> pos list"
where
  "depthLimitedSearch g currentNode endNode maxDepth visitedNodes depth =
     (if type (cell g currentNode) = Wall then (False, g, visitedNodes)
      else let g1 = upd g currentNode (\<lambda>n. n\<lparr>isVisited := True\<rparr>);
               visitedNodes1 = visitedNodes @ [currentNode] in
        if currentNode = endNode then (True, g1, visitedNodes1)
        else if depth \<ge> maxDepth then (False, g1, visitedNodes1)
        else dls_neighbors g1 currentNode (getNeighbors currentNode g1) endNode maxDepth visitedNodes1 depth)"
| "dls_neighbors g currentNode [] endNode maxDepth visitedNodes depth = (False, g, visitedNodes)"
| "dls_neighbors g currentNode (neighbor # rest) endNode maxDepth visitedNodes depth =
     (if \<not> isVisited (cell g neighbor) \<and> type (cell g neighbor) \<noteq> Wall
      then (case depthLimitedSearch (upd g neighbor (\<lambda>n. n\<lparr>previousNode := Some currentNode\<rparr>))
                   neighbor endNode maxDepth visitedNodes (depth + 1) of
              (ok, g', visitedNodes') \<Rightarrow>
                if ok then (True, g', visitedNodes')
                else dls_neighbors g' currentNode rest endNode maxDepth visitedNodes' depth)
      else dls_neighbors g currentNode rest endNode maxDepth visitedNodes depth)"
  by pat_completeness auto
termination
  by (relation "inv_image (less_than <*lex*> less_than)
        (\<lambda>x. case x of
           Inl (g, c, e, maxDepth, vis, depth) \<Rightarrow>
             (if maxDepth \<le> depth then 0 else 3 * (maxDepth - depth) + 2, 0)
         | Inr (g, c, ns, e, maxDepth, vis, depth) \<Rightarrow> (3 * (maxDepth - depth) + 1, length ns))")
     auto

definition reset_visited :: "grid \<Rightarrow> grid" where
  "reset_visited g = map_cells (\<lambda>n. n\<lparr>isVisited := False, previousNode := None\<rparr>) g"

definition idd_body :: "pos \<Rightarrow> pos \<Rightarrow> grid \<times> nat \<times> pos list \<Rightarrow>
    ((PathfindingResult \<times> grid) + (grid \<times> nat \<times> pos list)) option" where
  "idd_body startNode endNode = (\<lambda>(g, maxDepth, allVisitedNodes).
     if maxDepth < rows g * cols g then
       (case depthLimitedSearch (reset_visited g) startNode endNode maxDepth allVisitedNodes 0 of
          (ok, g', allVisitedNodes') \<Rightarrow>
            if ok then found g' allVisitedNodes' endNode
            else Some (Inr (g', maxDepth + 1, allVisitedNodes')))
     else Some (Inl (not_found g allVisitedNodes)))"

definition iterativeDeepening :: "grid \<Rightarrow> pos \<Rightarrow> pos \<Rightarrow> (PathfindingResult \<times> grid) option" where
  "iterativeDeepening g startNode endNode = while_loop (idd_body startNode endNode) (g, 0, [])"

section \<open>Grid helpers (utils/gridHelpers.ts)\<close>

definition createNode :: "nat \<Rightarrow> nat \<Rightarrow> node" where
  "createNode row col =
     \<lparr>type = Empty, isVisited = False, distance = \<infinity>, heuristic = 0, previousNode = None\<rparr>"

definition createGrid :: "nat \<Rightarrow> nat \<Rightarrow> grid" where
  "createGrid r c = map (\<lambda>row. map (\<lambda>col. createNode row col) [0..<c]) [0..<r]"

definition placeStartAndEnd :: "grid \<Rightarrow> pos \<Rightarrow> pos \<Rightarrow> grid" where
  "placeStartAndEnd g startPos endPos =
     upd (upd g startPos (\<lambda>n. n\<lparr>type := Start\<rparr>)) endPos (\<lambda>n. n\<lparr>type := End\<rparr>)"

definition setWall :: "grid \<Rightarrow> nat \<Rightarrow> nat \<Rightarrow> bool \<Rightarrow> grid" where
  "setWall g row col isWall =
     (if type (cell g (row, col)) = Start \<or> type (cell g (row, col)) = End then g
      else upd g (row, col) (\<lambda>n. n\<lparr>type := (if isWall then Wall else Empty)\<rparr>))"

definition clearPath :: "grid \<Rightarrow> grid" where
  "clearPath g = map_cells (\<lambda>n. n\<lparr>
       type := (if type n \<in> {Visited, Path, Frontier} then Empty else type n),
       isVisited := False, distance := \<infinity>, heuristic := 0, previousNode := None\<rparr>) g"

definition resetGrid :: "nat \<Rightarrow> nat \<Rightarrow> grid" where
  "resetGrid r c =
     placeStartAndEnd (createGrid r c) (r div 2, c div 4) (r div 2, (c * 3) div 4)"

definition clearWalls :: "grid \<Rightarrow> grid" where
  "clearWalls g = map_cells (\<lambda>n. n\<lparr>type := (if type n = Wall then Empty else type n)\<rparr>) g"

section \<open>Paths in the grid\<close>

definition adjacent :: "pos \<Rightarrow> pos \<Rightarrow> bool" where
  "adjacent p q = ((fst p = fst q \<and> (snd p = Suc (snd q) \<or> snd q = Suc (snd p))) \<or>
                   (snd p = snd q \<and> (fst p = Suc (fst q) \<or> fst q = Suc (fst p))))"

definition walkable :: "grid \<Rightarrow> pos \<Rightarrow> bool" where
  "walkable g p = (in_bounds g p \<and> type (cell g p) \<noteq> Wall)"

text \<open>A non-empty sequence of in-bounds non-wall cells, each one orthogonal step from
  the one before.\<close>

fun is_path :: "grid \<Rightarrow> pos list \<Rightarrow> bool" where
  "is_path g [] = False"
| "is_path g [p] = walkable g p"
| "is_path g (p # q # ps) = (walkable g p \<and> adjacent p q \<and> is_path g (q # ps))"

definition path_between :: "grid \<Rightarrow> pos \<Rightarrow> pos \<Rightarrow> pos list \<Rightarrow> bool" where
  "path_between g s e ps = (is_path g ps \<and> hd ps = s \<and> last ps = e)"

text \<open>The scratch state a run starts from, as far as the results below depend on it:
  what \<open>createNode\<close>, \<open>clearPath\<close> and the reset in \<open>visualizeAlgorithm\<close> leave in
  \<open>isVisited\<close> and \<open>previousNode\<close>.\<close>

definition fresh :: "grid \<Rightarrow> bool" where
  "fresh g = list_all (list_all (\<lambda>n. \<not> isVisited n \<and> previousNode n = None)) g"

section \<open>Playback scheduler (components/Grid.tsx, the version with pause, resume and stop)\<close>

text \<open>
  The component's state variables and refs are the fields of \<open>scheduler\<close>, together with
  the browser's table of pending timers, kept in firing order (by due time, then by
  creation). A callback closes over the values of the render that created it; these are
  the arguments of the \<open>callback\<close> constructors. A \<open>Node\<close> seen by a callback is its
  position and the \<open>type\<close> it had in the grid that was searched. Due times are exact
  rationals in milliseconds.
\<close>

type_synonym anode = "pos \<times> CellType"

datatype callback =
    RunSearch grid pos pos string nat
  | AnimVisited "anode list" nat
  | ClearFrontiers
  | AnimPath anode
  | AnimFinal
  | ResVisited "anode list" nat
  | ResPath anode
  | ResFinal

type_synonym timer = "nat \<times> rat \<times> callback"

record scheduler =
  grid_state :: grid
  isVisualizing :: bool
  isPaused :: bool
  canPause :: bool
  animationCompleted :: bool
  animationTimeouts :: "nat list"
  currentAnimationIndex :: nat
  animationData :: "(anode list \<times> anode list) option"
  startPos :: pos
  endPos :: pos
  selectedAlgorithm :: string
  speed :: nat
  timers :: "timer list"
  nextTimerId :: nat
  now :: rat

fun insert_timer :: "timer \<Rightarrow> timer list \<Rightarrow> timer list" where
  "insert_timer t [] = [t]"
| "insert_timer t (u # us) =
     (if fst (snd t) < fst (snd u) then t # u # us else u # insert_timer t us)"

definition setTimeout :: "callback \<Rightarrow> rat \<Rightarrow> scheduler \<Rightarrow> nat \<times> scheduler" where
  "setTimeout cb delay s =
     (nextTimerId s,
      s\<lparr>timers := insert_timer (nextTimerId s, now s + delay, cb) (timers s),
        nextTimerId := Suc (nextTimerId s)\<rparr>)"

definition clearTimeout :: "nat \<Rightarrow> scheduler \<Rightarrow> scheduler" where
  "clearTimeout i s = s\<lparr>timers := filter (\<lambda>t. fst t \<noteq> i) (timers s)\<rparr>"

text \<open>\<open>setTimeout\<close> followed by \<open>animationTimeouts.current.push(timeout)\<close>.\<close>

definition schedule :: "callback \<Rightarrow> rat \<Rightarrow> scheduler \<Rightarrow> scheduler" where
  "schedule cb delay s =
     (case setTimeout cb delay s of
        (i, s') \<Rightarrow> s'\<lparr>animationTimeouts := animationTimeouts s' @ [i]\<rparr>)"

definition clearAnimations :: "scheduler \<Rightarrow> scheduler" where
  "clearAnimations s =
     (fold clearTimeout (animationTimeouts s) s)
       \<lparr>animationTimeouts := [], currentAnimationIndex := 0, animationData := None\<rparr>"

definition stopVisualization :: "scheduler \<Rightarrow> scheduler" where
  "stopVisualization s =
     (clearAnimations s)\<lparr>isVisualizing := False, isPaused := False, canPause := False,
                         animationCompleted := True\<rparr>"

definition pauseVisualization :: "scheduler \<Rightarrow> scheduler" where
  "pauseVisualization s =
     (if \<not> canPause s \<or> \<not> isVisualizing s then s
      else clearAnimations (s\<lparr>isPaused := True\<rparr>))"

definition setType :: "grid \<Rightarrow> pos \<Rightarrow> CellType \<Rightarrow> grid" where
  "setType g p t = upd g p (\<lambda>n. n\<lparr>type := t\<rparr>)"

definition clearFrontiers :: "grid \<Rightarrow> grid" where
  "clearFrontiers g = map_cells (\<lambda>n. if type n = Frontier then n\<lparr>type := Empty\<rparr> else n) g"

text \<open>The frontier preview of \<open>animateAlgorithm\<close> tests the \<open>type\<close> of the searched
  node; the one of \<open>resumeVisualization\<close> tests the cell of the grid being updated.\<close>

definition showFrontierAnim :: "anode list \<Rightarrow> nat \<Rightarrow> grid \<Rightarrow> grid" where
  "showFrontierAnim vs index g =
     fold (\<lambda>i g. let nextNode = vs ! (index + i) in
             if snd nextNode \<noteq> Start \<and> snd nextNode \<noteq> End \<and> snd nextNode \<noteq> Visited
             then setType g (fst nextNode) Frontier else g)
          [1..<Suc (min 8 (length vs - index - 1))] g"

definition showFrontierRes :: "anode list \<Rightarrow> nat \<Rightarrow> grid \<Rightarrow> grid" where
  "showFrontierRes vs index g =
     fold (\<lambda>j g. let nextNode = vs ! (index + j) in
             if type (cell g (fst nextNode)) \<noteq> Start \<and> type (cell g (fst nextNode)) \<noteq> End
                \<and> type (cell g (fst nextNode)) \<noteq> Visited
             then setType g (fst nextNode) Frontier else g)
          [1..<Suc (min 8 (length vs - index - 1))] g"

definition finish :: "scheduler \<Rightarrow> scheduler" where
  "finish s = s\<lparr>isVisualizing := False, isPaused := False, canPause := False,
                animationData := None, animationCompleted := True\<rparr>"

definition resumeVisualization :: "scheduler \<Rightarrow> scheduler" where
  "resumeVisualization s =
     (case animationData s of
        None \<Rightarrow> s
      | Some (visitedNodes, shortestPath') \<Rightarrow>
          if \<not> isPaused s then s
          else let startIndex = currentAnimationIndex s;
                   delay = 500 / of_nat (speed s);
                   s1 = s\<lparr>isPaused := False, canPause := True\<rparr>;
                   s2 = fold (\<lambda>i. schedule (ResVisited visitedNodes i)
                                     (delay * (of_nat i - of_nat startIndex)))
                          [startIndex..<length visitedNodes] s1;
                   clearFrontiersDelay = delay * (of_nat (length visitedNodes) - of_nat startIndex);
                   s3 = schedule ClearFrontiers clearFrontiersDelay s2;
                   pathDelay = clearFrontiersDelay + 50;
                   s4 = fold (\<lambda>index. schedule (ResPath (shortestPath' ! index))
                                         (pathDelay + delay * of_nat index * 3))
                          [0..<length shortestPath'] s3
               in schedule ResFinal (pathDelay + delay * of_nat (length shortestPath') * 3 + 100) s4)"

definition getAlgorithmFunction :: "string \<Rightarrow> grid \<Rightarrow> pos \<Rightarrow> pos \<Rightarrow> (PathfindingResult \<times> grid) option" where
  "getAlgorithmFunction name =
     (if name = ''bfs'' then bfs
      else if name = ''dfs'' then dfs
      else if name = ''astar'' then astar
      else if name = ''greedy-bfs'' then greedyBFS
      else bfs)"

definition animateAlgorithm :: "anode list \<Rightarrow> anode list \<Rightarrow> nat \<Rightarrow> scheduler \<Rightarrow> scheduler" where
  "animateAlgorithm visitedNodes shortestPath' spd s =
     (let s1 = s\<lparr>animationData := Some (visitedNodes, shortestPath')\<rparr>;
          delay = 500 / of_nat spd;
          s2 = s1\<lparr>canPause := True\<rparr>;
          s3 = fold (\<lambda>index. schedule (AnimVisited visitedNodes index) (delay * of_nat index))
                 [0..<length visitedNodes] s2;
          s4 = schedule ClearFrontiers (delay * of_nat (length visitedNodes)) s3;
          pathDelay = delay * of_nat (length visitedNodes) + 50;
          s5 = fold (\<lambda>index. schedule (AnimPath (shortestPath' ! index))
                                (pathDelay + delay * of_nat index * 3))
                 [0..<length shortestPath'] s4
      in schedule AnimFinal (pathDelay + delay * of_nat (length shortestPath') * 3 + 100) s5)"

text \<open>Running a callback. The search of \<open>RunSearch\<close> is the only one that may fail to
  return.\<close>

fun run_callback :: "callback \<Rightarrow> scheduler \<Rightarrow> scheduler option" where
  "run_callback (RunSearch g startNode endNode name spd) s =
     (case getAlgorithmFunction name g startNode endNode of
        None \<Rightarrow> None
      | Some (result, g') \<Rightarrow>
          Some (animateAlgorithm
                  (map (\<lambda>p. (p, type (cell g' p))) (visitedNodesInOrder result))
                  (map (\<lambda>p. (p, type (cell g' p))) (shortestPath result)) spd s))"
| "run_callback (AnimVisited vs index) s =
     (let s1 = s\<lparr>currentAnimationIndex := index\<rparr>; nd = vs ! index in
      if snd nd \<noteq> Start \<and> snd nd \<noteq> End
      then Some (s1\<lparr>grid_state :=
             showFrontierAnim vs index (clearFrontiers (setType (grid_state s1) (fst nd) Visited))\<rparr>)
      else Some s1)"
| "run_callback ClearFrontiers s = Some (s\<lparr>grid_state := clearFrontiers (grid_state s)\<rparr>)"
| "run_callback (AnimPath nd) s =
     (if snd nd \<noteq> Start \<and> snd nd \<noteq> End
      then Some (s\<lparr>grid_state := setType (grid_state s) (fst nd) Path\<rparr>)
      else Some s)"
| "run_callback AnimFinal s = Some (finish s)"
| "run_callback (ResVisited vs i) s =
     (let s1 = s\<lparr>currentAnimationIndex := i + 1\<rparr>; nd = vs ! i; g = grid_state s1;
          g1 = (if type (cell g (fst nd)) \<noteq> Start \<and> type (cell g (fst nd)) \<noteq> End
                then setType g (fst nd) Visited else g)
      in Some (s1\<lparr>grid_state := showFrontierRes vs i (clearFrontiers g1)\<rparr>))"
| "run_callback (ResPath nd) s =
     (let g = grid_state s in
      if type (cell g (fst nd)) \<noteq> Start \<and> type (cell g (fst nd)) \<noteq> End
      then Some (s\<lparr>grid_state := setType g (fst nd) Path\<rparr>)
      else Some s)"
| "run_callback ResFinal s = Some ((finish s)\<lparr>currentAnimationIndex := 0\<rparr>)"

text \<open>The browser fires the first pending timer; with none pending nothing happens.\<close>

definition fire :: "scheduler \<Rightarrow> scheduler option" where
  "fire s =
     (case timers s of
        [] \<Rightarrow> Some s
      | (i, d, cb) # rest \<Rightarrow> run_callback cb (s\<lparr>timers := rest, now := max (now s) d\<rparr>))"

fun fires :: "nat \<Rightarrow> scheduler \<Rightarrow> scheduler option" where
  "fires 0 s = Some s"
| "fires (Suc n) s = (case fire s of None \<Rightarrow> None | Some s' \<Rightarrow> fires n s')"

definition resetVisualization :: "grid \<Rightarrow> grid" where
  "resetVisualization g = map_cells (\<lambda>n. n\<lparr>isVisited := False, distance := \<infinity>,
       heuristic := \<infinity>, previousNode := None,
       type := (if type n = Visited \<or> type n = Path then Empty else type n)\<rparr>) g"

text \<open>The timer that runs the search is not pushed to \<open>animationTimeouts\<close>; the search
  reads the grid of the render in which \<open>visualizeAlgorithm\<close> was called.\<close>

definition visualizeAlgorithm :: "scheduler \<Rightarrow> scheduler" where
  "visualizeAlgorithm s =
     (if isVisualizing s \<or> animationCompleted s then s
      else let s1 = clearAnimations s;
               s2 = s1\<lparr>grid_state := resetVisualization (grid_state s1)\<rparr>;
               s3 = s2\<lparr>isVisualizing := True\<rparr>
           in snd (setTimeout
                (RunSearch (grid_state s) (startPos s) (endPos s) (selectedAlgorithm s) (speed s))
                50 s3))"

definition handleClearWalls :: "scheduler \<Rightarrow> scheduler" where
  "handleClearWalls s =
     (let s1 = (clearAnimations s)\<lparr>isVisualizing := False, isPaused := False,
                                   canPause := False, animationCompleted := False\<rparr>
      in s1\<lparr>grid_state := clearWalls (grid_state s1)\<rparr>)"

definition handleReset :: "nat \<Rightarrow> nat \<Rightarrow> scheduler \<Rightarrow> scheduler" where
  "handleReset r c s =
     (clearAnimations s)\<lparr>isVisualizing := False, isPaused := False, canPause := False,
        animationCompleted := False, grid_state := resetGrid r c,
        startPos := (r div 2, c div 4), endPos := (r div 2, (c * 3) div 4)\<rparr>"

text \<open>The component as first rendered.\<close>

definition initial :: "nat \<Rightarrow> nat \<Rightarrow> string \<Rightarrow> nat \<Rightarrow> scheduler" where
  "initial r c name spd =
     \<lparr>grid_state = resetGrid r c, isVisualizing = False, isPaused = False, canPause = False,
      animationCompleted = False, animationTimeouts = [], currentAnimationIndex = 0,
      animationData = None, startPos = (r div 2, c div 4), endPos = (r div 2, (c * 3) div 4),
      selectedAlgorithm = name, speed = spd, timers = [], nextTimerId = 0, now = 0\<rparr>"

text \<open>The states of the scheduler, read off the component's flags. A completed and a
  stopped animation leave the same flags.\<close>

datatype phase = Idle | Running | Paused | Ended

definition phase_of :: "scheduler \<Rightarrow> phase" where
  "phase_of s =
     (if isVisualizing s then (if isPaused s then Paused else Running)
      else if animationCompleted s then Ended else Idle)"

section \<open>Concrete grids\<close>

text \<open>Five rows, two columns, walls at (2,1), (3,1), (4,1); start (0,0), end (4,0).\<close>

definition idd_grid :: grid where
  "idd_grid = setWall (setWall (setWall
       (placeStartAndEnd (createGrid 5 2) (0, 0) (4, 0)) 2 1 True) 3 1 True) 4 1 True"

text \<open>One row of three cells: start (0,0), a wall at (0,1), end (0,2).\<close>

definition blocked_grid :: grid where
  "blocked_grid = setWall (placeStartAndEnd (createGrid 1 3) (0, 0) (0, 2)) 0 1 True"

text \<open>The default two-by-three grid (start (1,0), end (1,2)), breadth-first search, speed 5.\<close>

definition demo :: scheduler where
  "demo = initial 2 3 ''bfs'' 5"

definition cells_of_type :: "CellType \<Rightarrow> grid \<Rightarrow> pos list" where
  "cells_of_type t g =
     filter (\<lambda>p. type (cell g p) = t) (List.product [0..<rows g] [0..<cols g])"

text \<open>What the callback of the visited frame \<open>index\<close> does to the grid, and the nodes
  a visited frame marks.\<close>

definition visited_frame :: "anode list \<Rightarrow> nat \<Rightarrow> grid \<Rightarrow> grid" where
  "visited_frame vs index g =
     (if snd (vs ! index) \<noteq> Start \<and> snd (vs ! index) \<noteq> End
      then showFrontierAnim vs index (clearFrontiers (setType g (fst (vs ! index)) Visited))
      else g)"

definition marked :: "anode \<Rightarrow> bool" where
  "marked v = (snd v \<noteq> Start \<and> snd v \<noteq> End)"

text \<open>The first five nodes of the visited order of breadth-first search on the default
  two-by-three grid, and its path, as the callbacks see them.\<close>

definition demo_visited :: "anode list" where
  "demo_visited = [((1, 0), Start), ((0, 0), Empty), ((1, 1), Empty), ((0, 1), Empty), ((1, 2), End)]"

definition demo_path :: "anode list" where
  "demo_path = [((1, 0), Start), ((1, 1), Empty), ((1, 2), End)]"

text \<open>What is on screen and what is pending: the cells shown as visited, as path and as
  frontier, the scheduler's state and the number of pending timers.\<close>

definition summary :: "scheduler \<Rightarrow> pos list \<times> pos list \<times> pos list \<times> phase \<times> nat" where
  "summary s = (cells_of_type Visited (grid_state s), cells_of_type Path (grid_state s),
                cells_of_type Frontier (grid_state s), phase_of s, length (timers s))"

section \<open>Invariants of the searches\<close>

text \<open>The grid \<open>g\<close> of a run in progress has the shape and the cell types of the grid
  \<open>g0\<close> the run started from.\<close>

definition kinds :: "grid \<Rightarrow> CellType list list" where
  "kinds g = map (map type) g"

definition same_shape :: "grid \<Rightarrow> grid \<Rightarrow> bool" where
  "same_shape g0 g = (rect g \<and> rows g = rows g0 \<and> cols g = cols g0 \<and>
     (\<forall>p. in_bounds g0 p \<longrightarrow> type (cell g p) = type (cell g0 p)))"

text \<open>\<open>extends g g'\<close>: from \<open>g\<close> to \<open>g'\<close> visited cells stay visited and keep their
  \<open>previousNode\<close>.\<close>

definition extends :: "grid \<Rightarrow> grid \<Rightarrow> bool" where
  "extends g g' = (rows g' = rows g \<and> cols g' = cols g \<and>
     (\<forall>p. in_bounds g p \<longrightarrow> type (cell g' p) = type (cell g p)) \<and>
     (\<forall>p. in_bounds g p \<and> isVisited (cell g p) \<longrightarrow>
        isVisited (cell g' p) \<and> previousNode (cell g' p) = previousNode (cell g p)))"

text \<open>\<open>tree g s p ps\<close>: following \<open>previousNode\<close> from \<open>p\<close> leads through the cells
  \<open>ps\<close> (from \<open>p\<close> back to \<open>s\<close>), all visited, each one step from the next, and ends
  at \<open>s\<close>, whose \<open>previousNode\<close> is \<open>null\<close>.\<close>

inductive tree :: "grid \<Rightarrow> pos \<Rightarrow> pos \<Rightarrow> pos list \<Rightarrow> bool" for g :: grid and s :: pos where
  root: "previousNode (cell g s) = None \<Longrightarrow> isVisited (cell g s) \<Longrightarrow> in_bounds g s \<Longrightarrow>
         tree g s s [s]"
| link: "tree g s q ps \<Longrightarrow> previousNode (cell g p) = Some q \<Longrightarrow> isVisited (cell g p) \<Longrightarrow>
         walkable g p \<Longrightarrow> walkable g q \<Longrightarrow> adjacent q p \<Longrightarrow> tree g s p (p # ps)"

definition tree_inv :: "pos \<Rightarrow> grid \<Rightarrow> bool" where
  "tree_inv s g = (\<forall>p. in_bounds g p \<and> isVisited (cell g p) \<longrightarrow> (\<exists>ps. tree g s p ps))"

text \<open>A cell waiting in an open set is the start before anything was visited, or was
  reached from a visited cell next to it.\<close>

definition pending :: "grid \<Rightarrow> pos \<Rightarrow> pos \<Rightarrow> bool" where
  "pending g s q =
     ((q = s \<and> previousNode (cell g q) = None \<and> (\<forall>p. in_bounds g p \<longrightarrow> \<not> isVisited (cell g p))) \<or>
      (\<exists>c. previousNode (cell g q) = Some c \<and> isVisited (cell g c) \<and> walkable g c \<and> adjacent c q))"

definition unvisited :: "grid \<Rightarrow> nat" where
  "unvisited g = card {p. in_bounds g p \<and> \<not> isVisited (cell g p)}"

text \<open>The state of the loops of \<open>bfs\<close> and \<open>dfs\<close>, which mark a cell when they put it
  into the queue or stack.\<close>

definition inv_marked :: "grid \<Rightarrow> pos \<Rightarrow> grid \<times> pos list \<times> pos list \<Rightarrow> bool" where
  "inv_marked g0 s = (\<lambda>(g, fr, vis). same_shape g0 g \<and>
     (\<forall>p\<in>set fr \<union> set vis. in_bounds g0 p \<and> isVisited (cell g p) \<and>
        (walkable g0 p \<longrightarrow> (\<exists>ps. path_between g0 s p ps))) \<and>
     distinct (vis @ fr) \<and> (\<forall>p\<in>set vis. walkable g0 p))"

text \<open>The state of the loops of \<open>astar\<close>, \<open>greedyBFS\<close> and \<open>uniformCostSearch\<close>, which
  mark a cell when they take it from the open set.\<close>

definition inv_open :: "grid \<Rightarrow> pos \<Rightarrow> grid \<times> pos list \<times> pos list \<Rightarrow> bool" where
  "inv_open g0 s = (\<lambda>(g, fr, vis). same_shape g0 g \<and>
     (\<forall>p\<in>set fr. in_bounds g0 p \<and> (walkable g0 p \<longrightarrow> (\<exists>ps. path_between g0 s p ps))) \<and>
     (\<forall>p\<in>set vis. in_bounds g0 p \<and> isVisited (cell g p) \<and> walkable g0 p \<and>
        (\<exists>ps. path_between g0 s p ps)) \<and>
     distinct vis)"

definition tree_open :: "pos \<Rightarrow> grid \<times> pos list \<times> pos list \<Rightarrow> bool" where
  "tree_open s = (\<lambda>(g, fr, vis). tree_inv s g \<and>
     (\<forall>q\<in>set fr. \<not> isVisited (cell g q) \<longrightarrow> pending g s q))"

text \<open>What one turn of a search loop does, in a state \<open>st\<close> that satisfies the
  invariant \<open>I\<close>: it returns failure, or it has taken the end cell from the frontier and
  returns what \<open>reconstructPath\<close> gives, or it goes on in a state that satisfies \<open>I\<close>
  again and is smaller in the measure \<open>m\<close>. \<open>T\<close> is the part of the invariant that
  needs a fresh grid.\<close>

type_synonym search_state = "grid \<times> pos list \<times> pos list"

definition turn :: "grid \<Rightarrow> pos \<Rightarrow> pos \<Rightarrow> (search_state \<Rightarrow> bool) \<Rightarrow> (search_state \<Rightarrow> bool) \<Rightarrow>
    (search_state \<Rightarrow> nat) \<Rightarrow> search_state \<Rightarrow>
    ((PathfindingResult \<times> grid) + search_state) option \<Rightarrow> bool" where
  "turn g0 s e I T m st out =
     ((\<exists>g vis. out = Some (Inl (not_found g vis)) \<and> distinct vis) \<or>
      (\<exists>g vis. out = found g vis e \<and> distinct vis \<and> same_shape g0 g \<and> in_bounds g0 e \<and>
         isVisited (cell g e) \<and> walkable g0 e \<and> (\<exists>ps. path_between g0 s e ps) \<and>
         (T st \<longrightarrow> tree_inv s g)) \<or>
      (\<exists>st'. out = Some (Inr st') \<and> I st' \<and> (T st \<longrightarrow> T st') \<and> m st' < m st))"

text \<open>What \<open>depthLimitedSearch\<close> and \<open>dls_neighbors\<close>, started on the store \<open>g\<close>, return:
  a store that extends \<open>g\<close>, in which every visited cell is linked to the start, and in
  which the end cell is visited and not a wall when the success flag is set.\<close>

definition dls_ok :: "pos \<Rightarrow> pos \<Rightarrow> grid \<Rightarrow> bool \<times> grid \<times> pos list \<Rightarrow> bool" where
  "dls_ok s e g = (\<lambda>(ok, g', vis'). rect g' \<and> extends g g' \<and> tree_inv s g' \<and>
     (ok \<longrightarrow> isVisited (cell g' e) \<and> walkable g' e))"

text \<open>\<open>turns n body s\<close> is the state of the loop after \<open>n\<close> complete turns from \<open>s\<close>, if
  the loop makes that many; \<open>exits body s\<close> says that the loop takes no further turn
  from \<open>s\<close>: there the body leaves the loop, with the failure result or into
  \<open>reconstructPath\<close>.\<close>

fun turns :: "nat \<Rightarrow> ('s \<Rightarrow> ('r + 's) option) \<Rightarrow> 's \<Rightarrow> 's option" where
  "turns 0 body s = Some s"
| "turns (Suc n) body s = (case body s of Some (Inr s') \<Rightarrow> turns n body s' | _ \<Rightarrow> None)"

definition exits :: "('s \<Rightarrow> ('r + 's) option) \<Rightarrow> 's \<Rightarrow> bool" where
  "exits body s = (case body s of Some (Inr s') \<Rightarrow> False | _ \<Rightarrow> True)"

section \<open>Reading and writing cells\<close>

lemma rows_upd [simp]: "rows (upd g p f) = rows g"
  by (simp add: rows_def upd_def)



lemma rect_nth: "rect g = (\<forall>i<length g. length (g ! i) = cols g)"
  by (simp add: rect_def list_all_length)

lemma upd_beyond: "\<not> (fst p < length g \<and> snd p < length (g ! fst p)) \<Longrightarrow> upd g p f = g"
  by (cases "fst p < length g") (simp_all add: upd_def list_update_beyond not_less)

lemma length_upd [simp]: "length (upd g p f) = length g"
  by (simp add: upd_def)

lemma length_upd_nth [simp]: "length (upd g p f ! i) = length (g ! i)"
proof (cases "fst p < length g \<and> snd p < length (g ! fst p)")
  case True
  then show ?thesis by (auto simp: upd_def nth_list_update)
next
  case False
  then show ?thesis by (simp add: upd_beyond)
qed

lemma cols_upd [simp]: "cols (upd g p f) = cols g"
  by (simp add: cols_def)

lemma rect_upd [simp]: "rect (upd g p f) = rect g"
  by (simp add: rect_nth)

lemma in_bounds_upd [simp]: "in_bounds (upd g p f) q = in_bounds g q"
  by (simp add: in_bounds_def)

lemma cell_upd_other [simp]: "q \<noteq> p \<Longrightarrow> cell (upd g p f) q = cell g q"
proof (cases "fst p < length g \<and> snd p < length (g ! fst p)")
  case True
  assume "q \<noteq> p"
  with True show ?thesis
    by (cases p; cases q) (auto simp: cell_def upd_def nth_list_update)
next
  case False
  then show ?thesis by (simp add: upd_beyond)
qed

lemma cell_upd_same: "rect g \<Longrightarrow> in_bounds g p \<Longrightarrow> cell (upd g p f) p = f (cell g p)"
  by (cases p) (auto simp: cell_def upd_def in_bounds_def rect_nth rows_def)

lemma cell_upd: "rect g \<Longrightarrow> in_bounds g p \<Longrightarrow>
    cell (upd g p f) q = (if q = p then f (cell g p) else cell g q)"
  by (simp add: cell_upd_same)

lemma cell_upd_cases: "cell (upd g p f) q = cell g q \<or> (q = p \<and> cell (upd g p f) q = f (cell g p))"
proof (cases "q = p")
  case False then show ?thesis by simp
next
  case True
  show ?thesis
  proof (cases "fst p < length g \<and> snd p < length (g ! fst p)")
    case True
    then show ?thesis using \<open>q = p\<close> by (auto simp: cell_def upd_def)
  next
    case False
    then have "upd g p f = g"
      by (rule upd_beyond)
    then show ?thesis by simp
  qed
qed

lemma type_upd: "(\<And>n. type (f n) = type n) \<Longrightarrow> type (cell (upd g p f) q) = type (cell g q)"
  using cell_upd_cases [of g p f q] by auto

lemma rows_map_cells [simp]: "rows (map_cells f g) = rows g"
  by (simp add: rows_def map_cells_def)

lemma cols_map_cells [simp]: "cols (map_cells f g) = cols g"
  by (cases g) (simp_all add: cols_def map_cells_def)

lemma rect_map_cells [simp]: "rect (map_cells f g) = rect g"
  unfolding rect_nth cols_map_cells by (simp add: map_cells_def)

lemma in_bounds_map_cells [simp]: "in_bounds (map_cells f g) q = in_bounds g q"
  by (simp add: in_bounds_def)

lemma cell_map_cells: "rect g \<Longrightarrow> in_bounds g p \<Longrightarrow> cell (map_cells f g) p = f (cell g p)"
  by (auto simp: cell_def map_cells_def in_bounds_def rect_nth rows_def)

lemma fold_inv: "P s \<Longrightarrow> (\<And>x s. x \<in> set xs \<Longrightarrow> P s \<Longrightarrow> P (f x s)) \<Longrightarrow> P (fold f xs s)"
  by (induction xs arbitrary: s) auto

section \<open>Timers\<close>

lemma set_insert_timer [simp]: "set (insert_timer t ts) = insert t (set ts)"
  by (induction ts) auto

lemma insert_timer_after:
  "\<forall>u\<in>set xs. fst (snd u) \<le> fst (snd t) \<Longrightarrow> insert_timer t (xs @ ys) = xs @ insert_timer t ys"
  by (induction xs) auto

lemma insert_timer_last:
  "\<forall>u\<in>set xs. fst (snd u) \<le> fst (snd t) \<Longrightarrow> insert_timer t xs = xs @ [t]"
  using insert_timer_after [of xs t "[]"] by simp

lemma schedule_eq:
  "schedule cb d s =
     s\<lparr>timers := insert_timer (nextTimerId s, now s + d, cb) (timers s),
       nextTimerId := Suc (nextTimerId s),
       animationTimeouts := animationTimeouts s @ [nextTimerId s]\<rparr>"
  by (simp add: schedule_def setTimeout_def)

lemma fold_clearTimeout:
  "fold clearTimeout ids s = s\<lparr>timers := filter (\<lambda>t. fst t \<notin> set ids) (timers s)\<rparr>"
proof (induction ids arbitrary: s)
  case Nil
  show ?case by simp
next
  case (Cons i ids)
  have "filter (\<lambda>t. fst t \<notin> set ids) (filter (\<lambda>t. fst t \<noteq> i) (timers s)) =
        filter (\<lambda>t. fst t \<notin> set (i # ids)) (timers s)"
    by (auto intro: filter_cong)
  with Cons show ?case by (simp add: clearTimeout_def)
qed

lemma clearAnimations_eq:
  "clearAnimations s =
     s\<lparr>timers := filter (\<lambda>t. fst t \<notin> set (animationTimeouts s)) (timers s),
       animationTimeouts := [], currentAnimationIndex := 0, animationData := None\<rparr>"
  by (simp add: clearAnimations_def fold_clearTimeout)

text \<open>A timer is tracked when its identifier is in \<open>animationTimeouts\<close>.\<close>

lemma tracked_schedule:
  "fst ` set (timers s) \<subseteq> set (animationTimeouts s) \<Longrightarrow>
   fst ` set (timers (schedule cb d s)) \<subseteq> set (animationTimeouts (schedule cb d s))"
  by (auto simp: schedule_eq)

lemma fires_no_timers: "timers s = [] \<Longrightarrow> fires n s = Some s"
  by (induction n) (simp_all add: fire_def)


section \<open>The timers that \<open>animateAlgorithm\<close> creates\<close>

lemma fold_schedule_visited:
  assumes "0 \<le> delay" and "timers s = []"
  shows "fold (\<lambda>index. schedule (AnimVisited vs index) (delay * of_nat index)) [0..<n] s =
     s\<lparr>timers := map (\<lambda>i. (nextTimerId s + i, now s + delay * of_nat i, AnimVisited vs i)) [0..<n],
       nextTimerId := nextTimerId s + n,
       animationTimeouts := animationTimeouts s @ map (\<lambda>i. nextTimerId s + i) [0..<n]\<rparr>"
proof (induction n)
  case 0
  from assms(2) show ?case by simp
next
  case (Suc n)
  have "\<forall>u\<in>set (map (\<lambda>i. (nextTimerId s + i, now s + delay * of_nat i, AnimVisited vs i)) [0..<n]).
          fst (snd u) \<le> now s + delay * of_nat n"
    using assms(1) by (auto intro: mult_left_mono)
  then have "insert_timer (nextTimerId s + n, now s + delay * of_nat n, AnimVisited vs n)
        (map (\<lambda>i. (nextTimerId s + i, now s + delay * of_nat i, AnimVisited vs i)) [0..<n]) =
      map (\<lambda>i. (nextTimerId s + i, now s + delay * of_nat i, AnimVisited vs i)) [0..<n] @
        [(nextTimerId s + n, now s + delay * of_nat n, AnimVisited vs n)]"
    by (intro insert_timer_last) simp
  with Suc show ?case by (simp add: schedule_eq)
qed

lemma schedule_keeps_prefix:
  assumes "\<exists>rest. timers s = V @ rest" and "\<forall>u\<in>set V. fst (snd u) \<le> now s + d"
  shows "\<exists>rest. timers (schedule cb d s) = V @ rest"
proof -
  from assms(1) obtain rest where "timers s = V @ rest" ..
  with assms(2) have "timers (schedule cb d s) = V @ insert_timer (nextTimerId s, now s + d, cb) rest"
    by (simp add: schedule_eq insert_timer_after)
  then show ?thesis ..
qed

lemma animateAlgorithm_timers:
  assumes spd: "0 < spd" and empty: "timers s = []"
  shows "\<exists>rest. timers (animateAlgorithm vs sp spd s) =
           map (\<lambda>i. (nextTimerId s + i, now s + 500 / of_nat spd * of_nat i, AnimVisited vs i))
             [0..<length vs] @ rest"
    and "fst ` set (timers (animateAlgorithm vs sp spd s))
           \<subseteq> set (animationTimeouts (animateAlgorithm vs sp spd s))"
    and "grid_state (animateAlgorithm vs sp spd s) = grid_state s"
proof -
  define delay :: rat where "delay = 500 / of_nat spd"
  define V where "V = map (\<lambda>i. (nextTimerId s + i, now s + delay * of_nat i, AnimVisited vs i))
             [0..<length vs]"
  define P where "P = (\<lambda>s'::scheduler. now s' = now s \<and> grid_state s' = grid_state s \<and>
      fst ` set (timers s') \<subseteq> set (animationTimeouts s') \<and> (\<exists>rest. timers s' = V @ rest))"
  have delay: "0 \<le> delay" using spd by (simp add: delay_def)
  have late: "\<forall>u\<in>set V. fst (snd u) \<le> now s + d" if "delay * of_nat (length vs) \<le> d" for d
  proof
    fix u assume "u \<in> set V"
    then obtain i where i: "i < length vs" and u: "fst (snd u) = now s + delay * of_nat i"
      by (auto simp: V_def)
    from i delay have "delay * of_nat i \<le> delay * of_nat (length vs)"
      by (intro mult_left_mono) simp_all
    with that u show "fst (snd u) \<le> now s + d" by simp
  qed
  have step: "P (schedule cb d s')" if "P s'" and "delay * of_nat (length vs) \<le> d" for cb d s'
  proof -
    from that(1) have n: "now s' = now s" by (simp add: P_def)
    from that(1) have "\<exists>rest. timers s' = V @ rest" by (simp add: P_def)
    moreover from late [OF that(2)] n have "\<forall>u\<in>set V. fst (snd u) \<le> now s' + d" by simp
    ultimately have "\<exists>rest. timers (schedule cb d s') = V @ rest"
      by (rule schedule_keeps_prefix)
    moreover from that(1) have "fst ` set (timers (schedule cb d s'))
        \<subseteq> set (animationTimeouts (schedule cb d s'))"
      by (intro tracked_schedule) (simp add: P_def)
    ultimately show ?thesis using that(1) by (simp add: P_def schedule_eq)
  qed
  define s2 where "s2 = s\<lparr>animationData := Some (vs, sp), canPause := True\<rparr>"
  define s3 where "s3 = fold (\<lambda>index. schedule (AnimVisited vs index) (delay * of_nat index))
                 [0..<length vs] s2"
  have "timers s2 = []" using empty by (simp add: s2_def)
  from fold_schedule_visited [OF delay this, of vs "length vs"]
  have s3: "P s3" by (auto simp: s3_def s2_def P_def V_def)
  define s4 where "s4 = schedule ClearFrontiers (delay * of_nat (length vs)) s3"
  have s4: "P s4" unfolding s4_def by (rule step [OF s3]) simp
  define s5 where "s5 = fold (\<lambda>index. schedule (AnimPath (sp ! index))
                                (delay * of_nat (length vs) + 50 + delay * of_nat index * 3))
                 [0..<length sp] s4"
  have s5: "P s5" unfolding s5_def
  proof (rule fold_inv [where P = P, OF s4])
    fix x s' assume "P s'"
    then show "P (schedule (AnimPath (sp ! x))
                   (delay * of_nat (length vs) + 50 + delay * of_nat x * 3) s')"
      using delay by (intro step) simp_all
  qed
  have "P (schedule AnimFinal (delay * of_nat (length vs) + 50 + delay * of_nat (length sp) * 3 + 100) s5)"
    using delay by (intro step s5) simp
  moreover have "animateAlgorithm vs sp spd s =
      schedule AnimFinal (delay * of_nat (length vs) + 50 + delay * of_nat (length sp) * 3 + 100) s5"
    by (simp add: animateAlgorithm_def Let_def s5_def s4_def s3_def s2_def delay_def)
  ultimately have "P (animateAlgorithm vs sp spd s)" by simp
  then show "\<exists>rest. timers (animateAlgorithm vs sp spd s) =
           map (\<lambda>i. (nextTimerId s + i, now s + 500 / of_nat spd * of_nat i, AnimVisited vs i))
             [0..<length vs] @ rest"
    and "fst ` set (timers (animateAlgorithm vs sp spd s))
           \<subseteq> set (animationTimeouts (animateAlgorithm vs sp spd s))"
    and "grid_state (animateAlgorithm vs sp spd s) = grid_state s"
    by (simp_all add: P_def V_def delay_def)
qed

section \<open>Firing visited frames\<close>

lemma fire_AnimVisited:
  "timers s = (i, d, AnimVisited vs index) # ts \<Longrightarrow>
   \<exists>s'. fire s = Some s' \<and> timers s' = ts \<and> animationTimeouts s' = animationTimeouts s \<and>
        grid_state s' = visited_frame vs index (grid_state s)"
  by (simp add: fire_def Let_def visited_frame_def)

lemma fires_visited:
  "timers s = map (\<lambda>i. (f i, d i, AnimVisited vs i)) js @ rest \<Longrightarrow>
   \<exists>s'. fires (length js) s = Some s' \<and> timers s' = rest \<and>
        animationTimeouts s' = animationTimeouts s \<and>
        grid_state s' = fold (visited_frame vs) js (grid_state s)"
proof (induction js arbitrary: s)
  case Nil
  then show ?case by simp
next
  case (Cons j js)
  then have "timers s = (f j, d j, AnimVisited vs j) #
      (map (\<lambda>i. (f i, d i, AnimVisited vs i)) js @ rest)"
    by simp
  from fire_AnimVisited [OF this] obtain s1 where s1: "fire s = Some s1"
      "timers s1 = map (\<lambda>i. (f i, d i, AnimVisited vs i)) js @ rest"
      "animationTimeouts s1 = animationTimeouts s"
      "grid_state s1 = visited_frame vs j (grid_state s)"
    by blast
  from Cons.IH [OF s1(2)] obtain s' where "fires (length js) s1 = Some s'" "timers s' = rest"
      "animationTimeouts s' = animationTimeouts s1"
      "grid_state s' = fold (visited_frame vs) js (grid_state s1)"
    by blast
  with s1 show ?case by simp
qed

section \<open>What the visited frames do to the grid\<close>

lemma setType_props [simp]:
  "rect (setType g p t) = rect g" "rows (setType g p t) = rows g" "cols (setType g p t) = cols g"
  "in_bounds (setType g p t) q = in_bounds g q"
  by (simp_all add: setType_def)

lemma clearFrontiers_props [simp]:
  "rect (clearFrontiers g) = rect g" "rows (clearFrontiers g) = rows g"
  "cols (clearFrontiers g) = cols g" "in_bounds (clearFrontiers g) q = in_bounds g q"
  by (simp_all add: clearFrontiers_def)

lemma type_setType:
  "rect g \<Longrightarrow> in_bounds g p \<Longrightarrow>
   type (cell (setType g p t) q) = (if q = p then t else type (cell g q))"
  by (simp add: setType_def cell_upd)

lemma type_clearFrontiers:
  "rect g \<Longrightarrow> in_bounds g p \<Longrightarrow>
   type (cell (clearFrontiers g) p) = (if type (cell g p) = Frontier then Empty else type (cell g p))"
  by (simp add: clearFrontiers_def cell_map_cells)

lemma showFrontierAnim_props:
  assumes "rect g"
  shows "rect (showFrontierAnim vs i g) \<and> rows (showFrontierAnim vs i g) = rows g \<and>
         cols (showFrontierAnim vs i g) = cols g \<and>
         (\<forall>p. type (cell (showFrontierAnim vs i g) p) = Visited \<longrightarrow> type (cell g p) = Visited) \<and>
         (\<forall>p. p \<notin> fst ` set (drop (Suc i) vs) \<longrightarrow> cell (showFrontierAnim vs i g) p = cell g p)"
  unfolding showFrontierAnim_def
proof (rule fold_inv [where P = "\<lambda>g'. rect g' \<and> rows g' = rows g \<and> cols g' = cols g \<and>
         (\<forall>p. type (cell g' p) = Visited \<longrightarrow> type (cell g p) = Visited) \<and>
         (\<forall>p. p \<notin> fst ` set (drop (Suc i) vs) \<longrightarrow> cell g' p = cell g p)"])
  show "rect g \<and> rows g = rows g \<and> cols g = cols g \<and>
         (\<forall>p. type (cell g p) = Visited \<longrightarrow> type (cell g p) = Visited) \<and>
         (\<forall>p. p \<notin> fst ` set (drop (Suc i) vs) \<longrightarrow> cell g p = cell g p)"
    using assms by simp
next
  fix x g'
  assume x: "x \<in> set [1..<Suc (min 8 (length vs - i - 1))]"
    and inv: "rect g' \<and> rows g' = rows g \<and> cols g' = cols g \<and>
         (\<forall>p. type (cell g' p) = Visited \<longrightarrow> type (cell g p) = Visited) \<and>
         (\<forall>p. p \<notin> fst ` set (drop (Suc i) vs) \<longrightarrow> cell g' p = cell g p)"
  from x have lt: "x - 1 < length (drop (Suc i) vs)" and ix: "Suc i + (x - 1) = i + x"
    and le: "Suc i \<le> length vs"
    by auto
  from lt have "drop (Suc i) vs ! (x - 1) \<in> set (drop (Suc i) vs)"
    by (rule nth_mem)
  moreover have "drop (Suc i) vs ! (x - 1) = vs ! (Suc i + (x - 1))"
    using le by (rule nth_drop)
  ultimately have "vs ! (Suc i + (x - 1)) \<in> set (drop (Suc i) vs)"
    by simp
  then have "vs ! (i + x) \<in> set (drop (Suc i) vs)"
    unfolding ix .
  then have mem: "fst (vs ! (i + x)) \<in> fst ` set (drop (Suc i) vs)"
    by (rule imageI)
  have vis: "type (cell (setType g' q Frontier) p) = Visited \<longrightarrow> type (cell g' p) = Visited" for p q
    using cell_upd_cases [of g' q "\<lambda>n. n\<lparr>type := Frontier\<rparr>" p] by (auto simp: setType_def)
  have other: "p \<notin> fst ` set (drop (Suc i) vs) \<longrightarrow>
      cell (setType g' (fst (vs ! (i + x))) Frontier) p = cell g' p" for p
  proof
    assume "p \<notin> fst ` set (drop (Suc i) vs)"
    with mem have "p \<noteq> fst (vs ! (i + x))" by metis
    then show "cell (setType g' (fst (vs ! (i + x))) Frontier) p = cell g' p"
      by (simp add: setType_def)
  qed
  show "rect ((let nextNode = vs ! (i + x) in
            if snd nextNode \<noteq> Start \<and> snd nextNode \<noteq> End \<and> snd nextNode \<noteq> Visited
            then setType g' (fst nextNode) Frontier else g')) \<and>
        rows ((let nextNode = vs ! (i + x) in
            if snd nextNode \<noteq> Start \<and> snd nextNode \<noteq> End \<and> snd nextNode \<noteq> Visited
            then setType g' (fst nextNode) Frontier else g')) = rows g \<and>
        cols ((let nextNode = vs ! (i + x) in
            if snd nextNode \<noteq> Start \<and> snd nextNode \<noteq> End \<and> snd nextNode \<noteq> Visited
            then setType g' (fst nextNode) Frontier else g')) = cols g \<and>
        (\<forall>p. type (cell ((let nextNode = vs ! (i + x) in
            if snd nextNode \<noteq> Start \<and> snd nextNode \<noteq> End \<and> snd nextNode \<noteq> Visited
            then setType g' (fst nextNode) Frontier else g')) p) = Visited \<longrightarrow>
             type (cell g p) = Visited) \<and>
        (\<forall>p. p \<notin> fst ` set (drop (Suc i) vs) \<longrightarrow>
             cell ((let nextNode = vs ! (i + x) in
            if snd nextNode \<noteq> Start \<and> snd nextNode \<noteq> End \<and> snd nextNode \<noteq> Visited
            then setType g' (fst nextNode) Frontier else g')) p = cell g p)"
    using inv vis other by (simp add: Let_def)
qed

lemma visited_frame_props:
  assumes "rect g" and "in_bounds g (fst (vs ! i))"
  shows "rect (visited_frame vs i g)" "rows (visited_frame vs i g) = rows g"
    "cols (visited_frame vs i g) = cols g"
    "in_bounds g p \<Longrightarrow> type (cell (visited_frame vs i g) p) = Visited \<Longrightarrow>
       type (cell g p) = Visited \<or> (marked (vs ! i) \<and> p = fst (vs ! i))"
    "in_bounds g p \<Longrightarrow> p \<notin> fst ` set (drop (Suc i) vs) \<Longrightarrow>
       type (cell g p) = Visited \<or> (marked (vs ! i) \<and> p = fst (vs ! i)) \<Longrightarrow>
       type (cell (visited_frame vs i g) p) = Visited"
proof -
  define g2 where "g2 = clearFrontiers (setType g (fst (vs ! i)) Visited)"
  have r2: "rect g2" using assms by (simp add: g2_def)
  have t2: "type (cell g2 p) = Visited \<longleftrightarrow> p = fst (vs ! i) \<or> type (cell g p) = Visited"
    if "in_bounds g p" for p
    using assms that by (simp add: g2_def type_clearFrontiers type_setType)
  note sf = showFrontierAnim_props [OF r2, of vs i]
  from sf have sfv: "type (cell (showFrontierAnim vs i g2) p) = Visited \<Longrightarrow>
      type (cell g2 p) = Visited"
    by blast
  from sf have sfo: "p \<notin> fst ` set (drop (Suc i) vs) \<Longrightarrow>
      cell (showFrontierAnim vs i g2) p = cell g2 p"
    by blast
  show "rect (visited_frame vs i g)" "rows (visited_frame vs i g) = rows g"
    "cols (visited_frame vs i g) = cols g"
    using sf assms by (auto simp: visited_frame_def g2_def)
  show "in_bounds g p \<Longrightarrow> type (cell (visited_frame vs i g) p) = Visited \<Longrightarrow>
       type (cell g p) = Visited \<or> (marked (vs ! i) \<and> p = fst (vs ! i))"
    using sfv t2 [of p] by (auto simp: visited_frame_def marked_def g2_def [symmetric] split: if_splits)
  show "in_bounds g p \<Longrightarrow> p \<notin> fst ` set (drop (Suc i) vs) \<Longrightarrow>
       type (cell g p) = Visited \<or> (marked (vs ! i) \<and> p = fst (vs ! i)) \<Longrightarrow>
       type (cell (visited_frame vs i g) p) = Visited"
    using sfo t2 [of p] by (auto simp: visited_frame_def marked_def g2_def [symmetric])
qed

lemma take_drop_disjoint:
  assumes "distinct (map fst vs)"
  shows "fst ` set (take n vs) \<inter> fst ` set (drop n vs) = {}"
proof -
  have "distinct (map fst (take n vs) @ map fst (drop n vs))"
    using assms by (simp flip: map_append)
  then show ?thesis by (simp add: image_set [symmetric] del: image_set)
qed

lemma frames_visited:
  assumes "rect g" and "distinct (map fst vs)" and "\<forall>v\<in>set vs. in_bounds g (fst v)"
    and "\<forall>p. in_bounds g p \<longrightarrow> type (cell g p) \<noteq> Visited" and "k \<le> length vs"
  shows "rect (fold (visited_frame vs) [0..<k] g) \<and>
         rows (fold (visited_frame vs) [0..<k] g) = rows g \<and>
         cols (fold (visited_frame vs) [0..<k] g) = cols g \<and>
         (\<forall>p. in_bounds g p \<longrightarrow>
            (type (cell (fold (visited_frame vs) [0..<k] g) p) = Visited \<longleftrightarrow>
             p \<in> fst ` {v \<in> set (take k vs). marked v}))"
  using assms(5)
proof (induction k)
  case 0
  with assms show ?case by simp
next
  case (Suc k)
  define g' where "g' = fold (visited_frame vs) [0..<k] g"
  from Suc have k: "k < length vs" by simp
  with Suc.IH have "rect g' \<and> rows g' = rows g \<and> cols g' = cols g \<and>
      (\<forall>p. in_bounds g p \<longrightarrow>
         (type (cell g' p) = Visited \<longleftrightarrow> p \<in> fst ` {v \<in> set (take k vs). marked v}))"
    by (simp add: g'_def)
  then have IH: "rect g'" "rows g' = rows g" "cols g' = cols g"
    "\<And>p. in_bounds g p \<Longrightarrow> type (cell g' p) = Visited \<longleftrightarrow> p \<in> fst ` {v \<in> set (take k vs). marked v}"
    by blast+
  have inb: "in_bounds g' p = in_bounds g p" for p
    using IH by (simp add: in_bounds_def)
  from k assms(3) have pk: "in_bounds g' (fst (vs ! k))"
    by (simp add: inb)
  note vf = visited_frame_props [OF IH(1) pk]
  have take: "take (Suc k) vs = take k vs @ [vs ! k]"
    using k by (simp add: take_Suc_conv_app_nth)
  have disj: "fst ` set (take (Suc k) vs) \<inter> fst ` set (drop (Suc k) vs) = {}"
    using assms(2) by (rule take_drop_disjoint)
  have new: "fold (visited_frame vs) [0..<Suc k] g = visited_frame vs k g'"
    by (simp add: g'_def)
  have main: "type (cell (visited_frame vs k g') p) = Visited \<longleftrightarrow>
          p \<in> fst ` {v \<in> set (take (Suc k) vs). marked v}" if p: "in_bounds g p" for p
  proof
    assume "type (cell (visited_frame vs k g') p) = Visited"
    with vf(4) [of p] p have "type (cell g' p) = Visited \<or> (marked (vs ! k) \<and> p = fst (vs ! k))"
      by (simp add: inb)
    with IH(4) [OF p] show "p \<in> fst ` {v \<in> set (take (Suc k) vs). marked v}"
      by (auto simp: take)
  next
    assume a: "p \<in> fst ` {v \<in> set (take (Suc k) vs). marked v}"
    then have "p \<in> fst ` set (take (Suc k) vs)" by auto
    with disj have "p \<notin> fst ` set (drop (Suc k) vs)" by auto
    moreover from a IH(4) [OF p]
    have "type (cell g' p) = Visited \<or> (marked (vs ! k) \<and> p = fst (vs ! k))"
      by (auto simp: take)
    ultimately show "type (cell (visited_frame vs k g') p) = Visited"
      using vf(5) [of p] p by (simp add: inb)
  qed
  from vf(1-3) IH(2,3) main show ?case
    unfolding new by (intro conjI allI impI) simp_all
qed

lemma set_cells_of_type:
  "set (cells_of_type t g) = {p. in_bounds g p \<and> type (cell g p) = t}"
  by (auto simp: cells_of_type_def in_bounds_def)

lemma distinct_cells_of_type: "distinct (cells_of_type t g)"
  by (simp add: cells_of_type_def distinct_product)

section \<open>Iterative deepening does not return a shortest path\<close>

text \<open>
  Claim C1 (the iterative-deepening part). On the five-by-two grid \<open>idd_grid\<close>, freshly
  built, the cells (0,0), (1,0), (2,0), (3,0), (4,0) form a path of five cells from start
  to end, which \<open>bfs\<close> returns, and \<open>iterativeDeepening\<close> returns a path of seven cells:
  with depth limit 4 the search reaches (1,0) at depth 3 through (0,1) and (1,1), marks
  it visited, and does not try it again at depth 1; the first limit that succeeds is 6.
\<close>

theorem iterativeDeepening_not_shortest:
  "path_between idd_grid (0, 0) (4, 0) [(0, 0), (1, 0), (2, 0), (3, 0), (4, 0)] \<and>
   map_option (shortestPath \<circ> fst) (iterativeDeepening idd_grid (0, 0) (4, 0)) =
     Some [(0, 0), (0, 1), (1, 1), (1, 0), (2, 0), (3, 0), (4, 0)] \<and>
   map_option (shortestPath \<circ> fst) (bfs idd_grid (0, 0) (4, 0)) =
     Some [(0, 0), (1, 0), (2, 0), (3, 0), (4, 0)] \<and> rect idd_grid \<and> fresh idd_grid"
  by code_simp

section \<open>Greedy best-first search and the initial heuristic\<close>

text \<open>
  Claim C9. \<open>greedyBFS\<close> leaves the open set as it is unless the examined neighbour's
  \<open>heuristic\<close> is \<open>Infinity\<close>. On the grid that \<open>resetGrid 2 2\<close> builds (start (1,0),
  end (1,1), adjacent), and on what \<open>clearPath\<close> makes of it, every \<open>heuristic\<close> is 0,
  a path from start to end exists, and \<open>greedyBFS\<close> visits the start only and returns
  \<open>success = false\<close> with an empty path.
\<close>

theorem greedyBFS_needs_infinite_heuristic:
  "(snd (greedy_neighbor endNode currentNode neighbor (g, openSet)) = openSet
      \<or> heuristic (cell g neighbor) = \<infinity>) \<and>
   list_all (list_all (\<lambda>n. heuristic n = 0)) (resetGrid 2 2) \<and>
   list_all (list_all (\<lambda>n. heuristic n = 0)) (clearPath (resetGrid 2 2)) \<and>
   path_between (resetGrid 2 2) (1, 0) (1, 1) [(1, 0), (1, 1)] \<and>
   path_between (clearPath (resetGrid 2 2)) (1, 0) (1, 1) [(1, 0), (1, 1)] \<and>
   map_option fst (greedyBFS (resetGrid 2 2) (1, 0) (1, 1)) =
     Some \<lparr>visitedNodesInOrder = [(1, 0)], shortestPath = [], success = False\<rparr> \<and>
   map_option fst (greedyBFS (clearPath (resetGrid 2 2)) (1, 0) (1, 1)) =
     Some \<lparr>visitedNodesInOrder = [(1, 0)], shortestPath = [], success = False\<rparr>"
proof -
  have gate: "snd (greedy_neighbor endNode currentNode neighbor (g, openSet)) = openSet
      \<or> heuristic (cell g neighbor) = \<infinity>"
    by (simp add: greedy_neighbor_def)
  have rest: "list_all (list_all (\<lambda>n. heuristic n = 0)) (resetGrid 2 2) \<and>
   list_all (list_all (\<lambda>n. heuristic n = 0)) (clearPath (resetGrid 2 2)) \<and>
   path_between (resetGrid 2 2) (1, 0) (1, 1) [(1, 0), (1, 1)] \<and>
   path_between (clearPath (resetGrid 2 2)) (1, 0) (1, 1) [(1, 0), (1, 1)] \<and>
   map_option fst (greedyBFS (resetGrid 2 2) (1, 0) (1, 1)) =
     Some \<lparr>visitedNodesInOrder = [(1, 0)], shortestPath = [], success = False\<rparr> \<and>
   map_option fst (greedyBFS (clearPath (resetGrid 2 2)) (1, 0) (1, 1)) =
     Some \<lparr>visitedNodesInOrder = [(1, 0)], shortestPath = [], success = False\<rparr>"
    by code_simp
  from gate rest show ?thesis by blast
qed

theorem greedyBFS_needs_infinite_heuristic_witness:
  "snd (greedy_neighbor (1, 1) (1, 0) (1, 1) (resetGrid 2 2, [])) = [] \<and>
   heuristic (cell (resetGrid 2 2) (1, 1)) = 0 \<and>
   map_option (success \<circ> fst) (greedyBFS (resetGrid 2 2) (1, 0) (1, 1)) = Some False"
  using greedyBFS_needs_infinite_heuristic [of "(1, 1)" "(1, 0)" "(1, 1)" "resetGrid 2 2" "[]"]
  by code_simp

section \<open>Pause followed by resume\<close>

text \<open>
  Claim C4. On the default two-by-three grid with breadth-first search at speed 5, the
  run started by \<open>visualizeAlgorithm\<close> fires eleven timers (the search, five visited
  frames, the frontier clearing, three path frames, the completion) and ends with (0,0)
  and (0,1) shown as visited and (1,1) as path. Pausing after two visited frames
  cancels the pending timers and also discards \<open>animationData\<close>, so that
  \<open>resumeVisualization\<close> returns at its guard: no timer is pending afterwards, the grid
  stays as it was at the pause, with its frontier preview, and the scheduler stays
  paused.
\<close>

theorem pause_resume_freezes:
  "map_option summary (fires 11 (visualizeAlgorithm demo)) =
     Some ([(0, 0), (0, 1)], [(1, 1)], [], Ended, 0) \<and>
   map_option summary (fires 3 (visualizeAlgorithm demo)) =
     Some ([(0, 0)], [], [(0, 1), (1, 1)], Running, 8) \<and>
   map_option summary (Option.bind (fires 3 (visualizeAlgorithm demo))
        (\<lambda>s. fires 8 (resumeVisualization (pauseVisualization s)))) =
     Some ([(0, 0)], [], [(0, 1), (1, 1)], Paused, 0)"
  by code_simp

theorem pause_resume_freezes_witness:
  "map_option summary (Option.bind (fires 3 (visualizeAlgorithm demo))
        (\<lambda>s. fires 8 (resumeVisualization (pauseVisualization s)))) =
     Some ([(0, 0)], [], [(0, 1), (1, 1)], Paused, 0)"
  using pause_resume_freezes by (rule conjunct2 [THEN conjunct2])

section \<open>Stop\<close>

text \<open>
  Claim C5, amended. Let \<open>animateAlgorithm\<close> start the animation of a result whose
  visited order lists only cells of the grid and no cell twice, at a speed of at least 1,
  on a rectangular grid that shows no visited cell and with no other timer pending, and
  let \<open>stopVisualization\<close> be called after exactly \<open>k\<close> visited frames have fired. Then
  the cells shown as visited are exactly the cells of these \<open>k\<close> frames whose node is
  neither start nor end, as many as there are such frames; no timer is pending,
  \<open>animationTimeouts\<close> is empty, firing changes nothing any more, and the scheduler has
  ended. (A stop before the timer that runs the search has fired is not considered here.)
\<close>

theorem stop_after_k_visited_frames:
  assumes "rect (grid_state s)" and "timers s = []" and "0 < spd"
    and "distinct (map fst vs)" and "\<forall>v\<in>set vs. in_bounds (grid_state s) (fst v)"
    and "cells_of_type Visited (grid_state s) = []" and "k \<le> length vs"
  shows "\<exists>s'. fires k (animateAlgorithm vs sp spd s) = Some s' \<and>
    set (cells_of_type Visited (grid_state (stopVisualization s'))) =
      fst ` {v \<in> set (take k vs). marked v} \<and>
    length (cells_of_type Visited (grid_state (stopVisualization s'))) =
      length (filter marked (take k vs)) \<and>
    timers (stopVisualization s') = [] \<and> animationTimeouts (stopVisualization s') = [] \<and>
    (\<forall>n. fires n (stopVisualization s') = Some (stopVisualization s')) \<and>
    phase_of (stopVisualization s') = Ended"
proof -
  define sa where "sa = animateAlgorithm vs sp spd s"
  define f where "f = (\<lambda>i. (nextTimerId s + i, now s + 500 / of_nat spd * of_nat i, AnimVisited vs i))"
  define g where "g = grid_state s"
  from animateAlgorithm_timers [OF assms(3,2), of vs sp]
  obtain rest where T: "timers sa = map f [0..<length vs] @ rest"
    and tracked: "fst ` set (timers sa) \<subseteq> set (animationTimeouts sa)"
    and gs: "grid_state sa = g"
    unfolding sa_def f_def g_def by blast
  from assms(7) have "[0..<length vs] = [0..<k] @ [k..<length vs]"
    by (metis le_add_diff_inverse upt_add_eq_append zero_le)
  with T have "timers sa = map (\<lambda>i. (fst (f i), fst (snd (f i)), AnimVisited vs i)) [0..<k] @
      (map f [k..<length vs] @ rest)"
    by (simp add: f_def)
  from fires_visited [OF this] obtain s' where s': "fires k sa = Some s'"
      "timers s' = map f [k..<length vs] @ rest" "animationTimeouts s' = animationTimeouts sa"
      "grid_state s' = fold (visited_frame vs) [0..<k] g"
    using gs by auto
  define st where "st = stopVisualization s'"
  have st_grid: "grid_state st = fold (visited_frame vs) [0..<k] g"
    by (simp add: st_def stopVisualization_def clearAnimations_eq s')
  have "set (timers s') \<subseteq> set (timers sa)" using T s'(2) assms(7) 
    by (auto simp: f_def)
  with tracked s'(3) have "\<forall>t\<in>set (timers s'). fst t \<in> set (animationTimeouts s')"
    by auto
  then have st_timers: "timers st = []"
    by (simp add: st_def stopVisualization_def clearAnimations_eq)
  have st_ids: "animationTimeouts st = []"
    by (simp add: st_def stopVisualization_def clearAnimations_eq)
  have st_phase: "phase_of st = Ended"
    by (simp add: st_def stopVisualization_def clearAnimations_eq phase_of_def)
  from assms(6) have novis: "\<forall>p. in_bounds g p \<longrightarrow> type (cell g p) \<noteq> Visited"
    using set_cells_of_type [of Visited g] by (auto simp: g_def)
  from frames_visited [OF assms(1) [folded g_def] assms(4) assms(5) [folded g_def] novis assms(7)]
  have fr: "rows (grid_state st) = rows g" "cols (grid_state st) = cols g"
    "\<And>p. in_bounds g p \<Longrightarrow>
       type (cell (grid_state st) p) = Visited \<longleftrightarrow> p \<in> fst ` {v \<in> set (take k vs). marked v}"
    unfolding st_grid by blast+
  have inb: "in_bounds (grid_state st) p = in_bounds g p" for p
    using fr(1,2) by (simp add: in_bounds_def)
  have sub: "fst ` {v \<in> set (take k vs). marked v} \<subseteq> {p. in_bounds g p}"
  proof
    fix p assume "p \<in> fst ` {v \<in> set (take k vs). marked v}"
    then obtain v where "v \<in> set (take k vs)" and p: "p = fst v" by auto
    then have "v \<in> set vs" by (metis in_set_takeD)
    with assms(5) p show "p \<in> {p. in_bounds g p}" by (simp add: g_def)
  qed
  have set_eq: "set (cells_of_type Visited (grid_state st)) = fst ` {v \<in> set (take k vs). marked v}"
    unfolding set_cells_of_type using fr(3) sub by (auto simp: inb)
  have "distinct (map fst (filter marked (take k vs)))"
    using assms(4) by (simp add: distinct_map_filter distinct_take take_map [symmetric])
  then have "card (fst ` set (filter marked (take k vs))) = length (filter marked (take k vs))"
    using distinct_card [of "map fst (filter marked (take k vs))"] by simp
  moreover have "set (filter marked (take k vs)) = {v \<in> set (take k vs). marked v}"
    by auto
  ultimately have "length (cells_of_type Visited (grid_state st)) = length (filter marked (take k vs))"
    using distinct_card [OF distinct_cells_of_type, of Visited "grid_state st"] set_eq by simp
  with s'(1) set_eq st_timers st_ids st_phase fires_no_timers [OF st_timers]
  show ?thesis unfolding sa_def st_def by blast
qed

theorem stop_after_k_visited_frames_witness:
  "rect (grid_state demo) \<and> timers demo = [] \<and> distinct (map fst demo_visited) \<and>
   list_all (\<lambda>v. in_bounds (grid_state demo) (fst v)) demo_visited \<and>
   cells_of_type Visited (grid_state demo) = [] \<and>
   (\<exists>s'. fires 3 (animateAlgorithm demo_visited demo_path 5 demo) = Some s' \<and>
      set (cells_of_type Visited (grid_state (stopVisualization s'))) = {(0, 0), (1, 1)} \<and>
      length (cells_of_type Visited (grid_state (stopVisualization s'))) = 2 \<and>
      timers (stopVisualization s') = [] \<and> animationTimeouts (stopVisualization s') = [])"
proof -
  have h1: "rect (grid_state demo)" by code_simp
  have h2: "timers demo = []" by code_simp
  have h3: "distinct (map fst demo_visited)" by code_simp
  have h4: "list_all (\<lambda>v. in_bounds (grid_state demo) (fst v)) demo_visited" by code_simp
  have h5: "cells_of_type Visited (grid_state demo) = []" by code_simp
  from h4 have h4': "\<forall>v\<in>set demo_visited. in_bounds (grid_state demo) (fst v)"
    by (simp only: list_all_iff)
  have t1: "fst ` set (filter marked (take 3 demo_visited)) = {(0, 0), (1, 1)}" by code_simp
  have t2: "length (filter marked (take 3 demo_visited)) = 2" by code_simp
  have t3: "{v \<in> set (take 3 demo_visited). marked v} = set (filter marked (take 3 demo_visited))"
    by (simp only: set_filter)
  have k: "(3::nat) \<le> length demo_visited" by code_simp
  have spd: "(0::nat) < 5" by simp
  from stop_after_k_visited_frames [OF h1 h2 spd h3 h4' h5 k, of demo_path]
  obtain s' where "fires 3 (animateAlgorithm demo_visited demo_path 5 demo) = Some s'"
    "set (cells_of_type Visited (grid_state (stopVisualization s'))) =
       fst ` {v \<in> set (take 3 demo_visited). marked v}"
    "length (cells_of_type Visited (grid_state (stopVisualization s'))) =
       length (filter marked (take 3 demo_visited))"
    "timers (stopVisualization s') = []" "animationTimeouts (stopVisualization s') = []"
    by blast
  then have "fires 3 (animateAlgorithm demo_visited demo_path 5 demo) = Some s' \<and>
      set (cells_of_type Visited (grid_state (stopVisualization s'))) = {(0, 0), (1, 1)} \<and>
      length (cells_of_type Visited (grid_state (stopVisualization s'))) = 2 \<and>
      timers (stopVisualization s') = [] \<and> animationTimeouts (stopVisualization s') = []"
    by (simp only: t1 t2 t3 simp_thms)
  then have "\<exists>s'. fires 3 (animateAlgorithm demo_visited demo_path 5 demo) = Some s' \<and>
      set (cells_of_type Visited (grid_state (stopVisualization s'))) = {(0, 0), (1, 1)} \<and>
      length (cells_of_type Visited (grid_state (stopVisualization s'))) = 2 \<and>
      timers (stopVisualization s') = [] \<and> animationTimeouts (stopVisualization s') = []"
    by (rule exI)
  with h1 h2 h3 h4 h5 show ?thesis by (intro conjI)
qed

text \<open>
  Claim C5 as stated fails for \<open>k = 1\<close>. On the default two-by-three grid with
  breadth-first search at speed 5, after the search and the first visited frame have
  fired (\<open>currentAnimationIndex\<close> is 0, nine of the ten timers are pending), the frame was
  the start cell's, which is not marked: \<open>stopVisualization\<close> leaves no visited cell.
\<close>

theorem stop_after_one_frame_counterexample:
  "map_option (\<lambda>s. (currentAnimationIndex s, length (timers s), summary (stopVisualization s)))
      (fires 2 (visualizeAlgorithm demo)) = Some (0, 9, [], [], [], Ended, 0)"
  by code_simp

section \<open>Starting a run\<close>

text \<open>
  Claim C6, amended. \<open>visualizeAlgorithm\<close> begins a run only from the idle state: there,
  with the pause flag clear, it enters the running state and leaves the timer of the
  search pending. In every other state it returns the scheduler unchanged: after a
  completed and after a stopped animation, which both leave the scheduler in the state
  \<open>Ended\<close>, as during a running or a paused one.
\<close>

theorem visualize_only_from_idle:
  "(phase_of s \<noteq> Idle \<longrightarrow> visualizeAlgorithm s = s) \<and>
   (phase_of s = Idle \<and> \<not> isPaused s \<longrightarrow> phase_of (visualizeAlgorithm s) = Running \<and>
      (\<exists>i d. (i, d, RunSearch (grid_state s) (startPos s) (endPos s) (selectedAlgorithm s) (speed s))
         \<in> set (timers (visualizeAlgorithm s)))) \<and>
   phase_of (stopVisualization s) = Ended \<and> phase_of (finish s) = Ended"
proof -
  have idle: "phase_of s \<noteq> Idle \<longleftrightarrow> isVisualizing s \<or> animationCompleted s"
    by (simp add: phase_of_def)
  have "phase_of s \<noteq> Idle \<longrightarrow> visualizeAlgorithm s = s"
    unfolding idle by (simp add: visualizeAlgorithm_def)
  moreover have "phase_of (visualizeAlgorithm s) = Running"
    if "phase_of s = Idle" "\<not> isPaused s"
    using idle that
    by (simp add: visualizeAlgorithm_def Let_def setTimeout_def clearAnimations_eq phase_of_def)
  moreover have "\<exists>i d. (i, d, RunSearch (grid_state s) (startPos s) (endPos s)
       (selectedAlgorithm s) (speed s)) \<in> set (timers (visualizeAlgorithm s))"
    if "phase_of s = Idle"
    using idle that
    by (simp add: visualizeAlgorithm_def Let_def setTimeout_def clearAnimations_eq) blast
  moreover have "phase_of (stopVisualization s) = Ended" "phase_of (finish s) = Ended"
    by (simp_all add: phase_of_def stopVisualization_def finish_def clearAnimations_eq Let_def)
  ultimately show ?thesis by blast
qed

theorem visualize_only_from_idle_witness:
  "phase_of (stopVisualization demo) = Ended \<and>
   visualizeAlgorithm (stopVisualization demo) = stopVisualization demo \<and>
   phase_of demo = Idle \<and> \<not> isPaused demo \<and>
   phase_of (visualizeAlgorithm demo) = Running"
proof -
  have a: "phase_of demo = Idle" by code_simp
  have b: "\<not> isPaused demo" by code_simp
  from visualize_only_from_idle [of "stopVisualization demo"]
    visualize_only_from_idle [of demo] a b
  show ?thesis by (simp del: split_paired_Ex)
qed

text \<open>
  Claim C6 as stated fails. On the default two-by-three grid, after the animation has
  completed (eleven timers fired), and after it has been stopped (three timers fired,
  then \<open>stopVisualization\<close>), \<open>visualizeAlgorithm\<close> leaves the scheduler in the state
  \<open>Ended\<close> with the same cells on screen and no timer pending: no run begins.
\<close>

theorem visualize_when_ended_counterexample:
  "map_option (\<lambda>s. (summary s, summary (visualizeAlgorithm s)))
      (fires 11 (visualizeAlgorithm demo)) =
     Some (([(0, 0), (0, 1)], [(1, 1)], [], Ended, 0), ([(0, 0), (0, 1)], [(1, 1)], [], Ended, 0)) \<and>
   map_option (\<lambda>s. (summary (stopVisualization s), summary (visualizeAlgorithm (stopVisualization s))))
      (fires 3 (visualizeAlgorithm demo)) =
     Some (([(0, 0)], [], [(0, 1), (1, 1)], Ended, 0), ([(0, 0)], [], [(0, 1), (1, 1)], Ended, 0))"
  by code_simp

section \<open>Loops\<close>

lemma while_loop_total:
  fixes m :: "'s \<Rightarrow> nat"
  assumes "I s"
    and step: "\<And>s. I s \<Longrightarrow> (\<exists>r. body s = Some (Inl r) \<and> Q r) \<or>
                 (\<exists>s'. body s = Some (Inr s') \<and> I s' \<and> m s' < m s)"
  shows "\<exists>r. while_loop body s = Some r \<and> Q r"
  using assms(1)
proof (induction "m s" arbitrary: s rule: less_induct)
  case less
  from step [OF less.prems] show ?case
  proof
    assume "\<exists>r. body s = Some (Inl r) \<and> Q r"
    then show ?thesis by (subst while_loop.simps) auto
  next
    assume "\<exists>s'. body s = Some (Inr s') \<and> I s' \<and> m s' < m s"
    then obtain s' where s': "body s = Some (Inr s')" "I s'" "m s' < m s" by blast
    from less.hyps [OF s'(3) s'(2)] obtain r where "while_loop body s' = Some r" "Q r"
      by blast
    with s'(1) show ?thesis by (subst while_loop.simps) simp
  qed
qed

lemma while_loop_partial:
  assumes "while_loop body s = Some r" and "I s"
    and "\<And>s s'. I s \<Longrightarrow> body s = Some (Inr s') \<Longrightarrow> I s'"
    and "\<And>s r. I s \<Longrightarrow> body s = Some (Inl r) \<Longrightarrow> Q r"
  shows "Q r"
proof -
  have "body = body \<longrightarrow> I s \<longrightarrow> Q r"
  proof (rule while_loop.raw_induct [where P = "\<lambda>b s r. b = body \<longrightarrow> I s \<longrightarrow> Q r"])
    show "while_loop body s = Some r" by fact
  next
    fix loop b s r
    assume IH: "\<And>b s r. loop b s = Some r \<Longrightarrow> b = body \<longrightarrow> I s \<longrightarrow> Q r"
      and eq: "(case b s of None \<Rightarrow> None | Some (Inl r) \<Rightarrow> Some r
                | Some (Inr s') \<Rightarrow> loop b s') = Some r"
    show "b = body \<longrightarrow> I s \<longrightarrow> Q r"
    proof (intro impI)
      assume b: "b = body" and I: "I s"
      show "Q r"
      proof (cases "b s")
        case None
        with eq show ?thesis by simp
      next
        case (Some x)
        show ?thesis
        proof (cases x)
          case (Inl r')
          with Some eq have "body s = Some (Inl r)" by (simp add: b)
          with I show ?thesis by (rule assms(4))
        next
          case (Inr s')
          with Some eq have "loop b s' = Some r" by simp
          moreover from Some Inr have "body s = Some (Inr s')" by (simp add: b)
          with I have "I s'" by (rule assms(3))
          ultimately show ?thesis using IH b by blast
        qed
      qed
    qed
  qed
  with assms(2) show ?thesis by simp
qed

declare split_paired_All [simp del] split_paired_Ex [simp del]

lemma same_shapeD:
  assumes "same_shape g0 g"
  shows "rect g" "rows g = rows g0" "cols g = cols g0"
    "in_bounds g0 p \<Longrightarrow> type (cell g p) = type (cell g0 p)"
  using assms unfolding same_shape_def by blast+

lemma extendsD:
  assumes "extends g g'"
  shows "rows g' = rows g" "cols g' = cols g"
    "in_bounds g p \<Longrightarrow> type (cell g' p) = type (cell g p)"
    "in_bounds g p \<Longrightarrow> isVisited (cell g p) \<Longrightarrow> isVisited (cell g' p)"
    "in_bounds g p \<Longrightarrow> isVisited (cell g p) \<Longrightarrow>
       previousNode (cell g' p) = previousNode (cell g p)"
  using assms unfolding extends_def by blast+

lemma tree_invD: "tree_inv s g \<Longrightarrow> in_bounds g p \<Longrightarrow> isVisited (cell g p) \<Longrightarrow> \<exists>ps. tree g s p ps"
  unfolding tree_inv_def by blast

section \<open>Paths\<close>

lemma getNeighbors_props:
  assumes "in_bounds g p" and "n \<in> set (getNeighbors p g)"
  shows "in_bounds g n" and "adjacent p n" and "n \<noteq> p"
  using assms
  by (auto simp: getNeighbors_def in_bounds_def adjacent_def split: prod.splits if_splits)

lemma length_getNeighbors: "length (getNeighbors p g) \<le> 4"
  by (simp add: getNeighbors_def split: prod.splits)

lemma is_path_snoc:
  "is_path g ps \<Longrightarrow> adjacent (last ps) p \<Longrightarrow> walkable g p \<Longrightarrow> is_path g (ps @ [p])"
  by (induction g ps rule: is_path.induct) auto

lemma is_path_nonempty: "is_path g ps \<Longrightarrow> ps \<noteq> []"
  by auto

lemma path_between_self: "walkable g s \<Longrightarrow> path_between g s s [s]"
  by (simp add: path_between_def)

lemma path_between_snoc:
  assumes "path_between g s q ps" and "adjacent q p" and "walkable g p"
  shows "path_between g s p (ps @ [p])"
proof -
  from assms(1) have "is_path g ps" "hd ps = s" "last ps = q" "ps \<noteq> []"
    by (auto simp: path_between_def)
  with assms(2,3) show ?thesis
    by (simp add: path_between_def is_path_snoc)
qed

lemma in_bounds_same_shape: "same_shape g0 g \<Longrightarrow> in_bounds g p = in_bounds g0 p"
  by (simp add: same_shapeD in_bounds_def)

lemma walkable_same_shape: "same_shape g0 g \<Longrightarrow> walkable g p = walkable g0 p"
  using same_shapeD(4) [of g0 g p] by (auto simp: walkable_def in_bounds_same_shape)

lemma is_path_same_shape: "same_shape g0 g \<Longrightarrow> is_path g ps = is_path g0 ps"
  by (induction g ps rule: is_path.induct) (auto simp: walkable_same_shape)

section \<open>The tree of \<open>previousNode\<close> links\<close>

lemma tree_ends: "tree g s p ps \<Longrightarrow> ps \<noteq> [] \<and> hd ps = p \<and> last ps = s"
proof (induction rule: tree.induct)
  case root
  show ?case by simp
next
  case (link q ps p)
  then show ?case by simp
qed

lemma tree_is_path: "tree g s p ps \<Longrightarrow> walkable g p \<Longrightarrow> is_path g (rev ps)"
proof (induction rule: tree.induct)
  case root
  then show ?case by simp
next
  case (link q ps p)
  from link.IH link.hyps(5) have "is_path g (rev ps)" by simp
  moreover from tree_ends [OF link.hyps(1)] have "last (rev ps) = q"
    by (simp add: last_rev)
  ultimately have "is_path g (rev ps @ [p])"
    using link.hyps(4,6) by (intro is_path_snoc) simp_all
  then show ?case by simp
qed

lemma tree_path_between:
  assumes "tree g s p ps" and "walkable g p"
  shows "path_between g s p (rev ps)"
  using tree_is_path [OF assms] tree_ends [OF assms(1)]
  by (simp add: path_between_def hd_rev last_rev)

lemma tree_reconstruct:
  "tree g s p ps \<Longrightarrow> reconstructPath_loop g (Some p) acc = Some (rev ps @ acc)"
proof (induction arbitrary: acc rule: tree.induct)
  case root
  then show ?case
    by (subst reconstructPath_loop.simps, simp, subst reconstructPath_loop.simps, simp)
next
  case (link q ps p)
  then show ?case
    by (subst reconstructPath_loop.simps) simp
qed

lemma tree_reconstructPath: "tree g s p ps \<Longrightarrow> reconstructPath g p = Some (rev ps)"
  by (simp add: reconstructPath_def tree_reconstruct)

lemma tree_extends:
  assumes "tree g s p ps" and "extends g g'"
  shows "tree g' s p ps"
  using assms(1)
proof (induction rule: tree.induct)
  case root
  from extendsD(4,5) [OF assms(2) root(3) root(2)] extendsD(1,2) [OF assms(2)] root
  show ?case by (intro tree.root) (simp_all add: in_bounds_def)
next
  case (link q ps p)
  have w: "walkable g' x" if "walkable g x" for x
    using that extendsD(1,2) [OF assms(2)] extendsD(3) [OF assms(2), of x]
    by (auto simp: walkable_def in_bounds_def)
  from link.hyps(4) have "in_bounds g p" by (simp add: walkable_def)
  from extendsD(4,5) [OF assms(2) this link.hyps(3)] link.hyps(2)
  have "previousNode (cell g' p) = Some q" "isVisited (cell g' p)" by simp_all
  with link.IH link.hyps(6) w [OF link.hyps(4)] w [OF link.hyps(5)] show ?case
    by (intro tree.link)
qed

lemma tree_inv_found:
  assumes "tree_inv s g" and "same_shape g0 g" and "in_bounds g0 e" and "isVisited (cell g e)"
    and "walkable g0 e"
  shows "\<exists>ps. reconstructPath g e = Some ps \<and> path_between g0 s e ps"
proof -
  from assms have "\<exists>ps. tree g s e ps"
    by (intro tree_invD [of s g e]) (simp_all add: in_bounds_same_shape)
  then obtain ps where t: "tree g s e ps" ..
  from assms have "walkable g e" by (simp add: walkable_same_shape)
  from tree_path_between [OF t this] assms(2) have "path_between g0 s e (rev ps)"
    by (simp add: path_between_def is_path_same_shape)
  with tree_reconstructPath [OF t] show ?thesis by blast
qed

section \<open>Updating one cell\<close>

lemma same_shape_upd:
  "same_shape g0 g \<Longrightarrow> (\<And>n. type (f n) = type n) \<Longrightarrow> same_shape g0 (upd g p f)"
  unfolding same_shape_def by (simp add: type_upd)

lemma kinds_upd: "(\<And>n. type (f n) = type n) \<Longrightarrow> kinds (upd g p f) = kinds g"
proof (cases "fst p < length g \<and> snd p < length (g ! fst p)")
  case False
  then show ?thesis by (simp add: upd_beyond)
next
  case True
  assume f: "\<And>n. type (f n) = type n"
  have "map type ((g ! fst p)[snd p := f (g ! fst p ! snd p)]) = map type (g ! fst p)"
    using True f by (intro nth_equalityI) (simp_all add: nth_list_update)
  then have "(map (map type) g)[fst p := map type ((g ! fst p)[snd p := f (g ! fst p ! snd p)])] =
      map (map type) g"
    using True by (intro nth_equalityI) (simp_all add: nth_list_update)
  then show ?thesis
    by (simp add: kinds_def upd_def cell_def map_update)
qed

lemma kinds_map_cells: "(\<And>n. type (f n) = type n) \<Longrightarrow> kinds (map_cells f g) = kinds g"
  by (simp add: kinds_def map_cells_def)

lemma finite_in_bounds: "finite {p. in_bounds g p \<and> P p}"
proof (rule finite_subset)
  show "{p. in_bounds g p \<and> P p} \<subseteq> {..<rows g} \<times> {..<cols g}"
    by (auto simp: in_bounds_def)
qed simp

lemma unvisited_mark:
  assumes "rect g" and "in_bounds g p" and "\<not> isVisited (cell g p)" and "\<And>n. isVisited (f n)"
  shows "Suc (unvisited (upd g p f)) = unvisited g"
proof -
  have "{q. in_bounds (upd g p f) q \<and> \<not> isVisited (cell (upd g p f) q)} =
        {q. in_bounds g q \<and> \<not> isVisited (cell g q)} - {p}"
    using assms by (auto simp: cell_upd)
  moreover have "p \<in> {q. in_bounds g q \<and> \<not> isVisited (cell g q)}"
    using assms by simp
  ultimately show ?thesis
    unfolding unvisited_def using card_Suc_Diff1 [OF finite_in_bounds, of p g "\<lambda>q. \<not> isVisited (cell g q)"]
    by simp
qed

lemma unvisited_keep:
  assumes "\<And>n. isVisited (f n) = isVisited n"
  shows "unvisited (upd g p f) = unvisited g"
proof -
  have "isVisited (cell (upd g p f) q) = isVisited (cell g q)" for q
  proof (cases "cell (upd g p f) q = cell g q")
    case True
    then show ?thesis by simp
  next
    case False
    with cell_upd_cases [of g p f q] have "q = p" "cell (upd g p f) q = f (cell g p)"
      by blast+
    with assms [of "cell g p"] show ?thesis by simp
  qed
  then have "{q. in_bounds (upd g p f) q \<and> \<not> isVisited (cell (upd g p f) q)} =
      {q. in_bounds g q \<and> \<not> isVisited (cell g q)}"
    by simp
  then show ?thesis by (simp only: unvisited_def)
qed

section \<open>Marking a cell when it is put into the frontier (\<open>bfs\<close>, \<open>dfs\<close>)\<close>

lemma getNeighbors_same_shape:
  "rows g' = rows g \<Longrightarrow> cols g' = cols g \<Longrightarrow> getNeighbors p g' = getNeighbors p g"
  by (simp add: getNeighbors_def)

lemma extends_refl: "extends g g"
  by (simp add: extends_def)

lemma extends_upd:
  assumes "\<not> isVisited (cell g n)" and "\<And>x. type (f x) = type x"
  shows "extends g (upd g n f)"
  unfolding extends_def
proof (intro conjI allI impI)
  fix p
  show "type (cell (upd g n f) p) = type (cell g p)"
    using assms(2) by (rule type_upd)
next
  fix p assume "in_bounds g p \<and> isVisited (cell g p)"
  with assms(1) have "p \<noteq> n" by auto
  then show "isVisited (cell (upd g n f) p)" "previousNode (cell (upd g n f) p) = previousNode (cell g p)"
    using \<open>in_bounds g p \<and> isVisited (cell g p)\<close> by simp_all
qed simp_all

lemma tree_inv_extends_new:
  assumes ti: "tree_inv s g" and ext: "extends g g'"
    and new: "\<And>p. in_bounds g p \<Longrightarrow> isVisited (cell g' p) \<Longrightarrow> \<not> isVisited (cell g p) \<Longrightarrow>
                \<exists>ps. tree g' s p ps"
  shows "tree_inv s g'"
  unfolding tree_inv_def
proof (intro allI impI)
  fix p assume p: "in_bounds g' p \<and> isVisited (cell g' p)"
  then have inb: "in_bounds g p"
    using extendsD(1,2) [OF ext] by (simp add: in_bounds_def)
  show "\<exists>ps. tree g' s p ps"
  proof (cases "isVisited (cell g p)")
    case True
    from tree_invD [OF ti inb True] obtain ps where "tree g s p ps" ..
    then have "tree g' s p ps" using ext by (rule tree_extends)
    then show ?thesis ..
  next
    case False
    with new [OF inb] p show ?thesis by blast
  qed
qed

lemma inv_markedD:
  assumes "inv_marked g0 s (g, fr, vis)"
  shows "same_shape g0 g" "distinct (vis @ fr)"
    "p \<in> set fr \<union> set vis \<Longrightarrow> in_bounds g0 p"
    "p \<in> set fr \<union> set vis \<Longrightarrow> isVisited (cell g p)"
    "p \<in> set fr \<union> set vis \<Longrightarrow> walkable g0 p \<Longrightarrow> \<exists>ps. path_between g0 s p ps"
    "p \<in> set vis \<Longrightarrow> walkable g0 p"
  using assms unfolding inv_marked_def by (simp, simp, blast+)

lemma inv_markedI:
  assumes "same_shape g0 g" "distinct (vis @ fr)"
    "\<And>p. p \<in> set fr \<union> set vis \<Longrightarrow> in_bounds g0 p"
    "\<And>p. p \<in> set fr \<union> set vis \<Longrightarrow> isVisited (cell g p)"
    "\<And>p. p \<in> set fr \<union> set vis \<Longrightarrow> walkable g0 p \<Longrightarrow> \<exists>ps. path_between g0 s p ps"
    "\<And>p. p \<in> set vis \<Longrightarrow> walkable g0 p"
  shows "inv_marked g0 s (g, fr, vis)"
  using assms unfolding inv_marked_def by simp

text \<open>One neighbour of the current cell, unvisited and not a wall, is marked, linked to
  the current cell and put into the frontier.\<close>

lemma mark_push:
  assumes inv: "inv_marked g0 s (g, fr, vis)" and cur: "cur \<in> set vis"
    and n: "n \<in> set (getNeighbors cur g)"
    and new: "\<not> isVisited (cell g n)" "type (cell g n) \<noteq> Wall"
    and f: "\<And>x. isVisited (f x)" "\<And>x. type (f x) = type x" "\<And>x. previousNode (f x) = Some cur"
  shows "inv_marked g0 s (upd g n f, fr @ [n], vis)"
    and "tree_inv s g \<Longrightarrow> tree_inv s (upd g n f)"
    and "Suc (unvisited (upd g n f)) = unvisited g"
proof -
  note D = inv_markedD [OF inv]
  note S = same_shapeD [OF D(1)]
  have inb: "in_bounds g p = in_bounds g0 p" for p
    using D(1) by (rule in_bounds_same_shape)
  have wk: "walkable g p = walkable g0 p" for p
    using D(1) by (rule walkable_same_shape)
  from cur have cur_in: "in_bounds g cur" and cur_vis: "isVisited (cell g cur)"
    and cur_walk: "walkable g cur"
    using D(3) [of cur] D(4) [of cur] D(6) [of cur] by (simp_all add: inb wk)
  from getNeighbors_props [OF cur_in n] have n_in: "in_bounds g n" and adj: "adjacent cur n"
    by simp_all
  from n_in new(2) have n_walk: "walkable g n" by (simp add: walkable_def)
  define g' where "g' = upd g n f"
  have shape: "same_shape g0 g'"
    unfolding g'_def using D(1) f(2) by (rule same_shape_upd)
  have n_cell: "cell g' n = f (cell g n)"
    unfolding g'_def using S(1) n_in by (rule cell_upd_same)
  have other: "cell g' p = cell g p" if "p \<noteq> n" for p
    unfolding g'_def using that by simp
  have old: "p \<noteq> n" if "p \<in> set fr \<union> set vis" for p
    using D(4) [OF that] new(1) by auto
  show "inv_marked g0 s (upd g n f, fr @ [n], vis)"
    unfolding g'_def [symmetric]
  proof (rule inv_markedI)
    show "same_shape g0 g'" by fact
    have "n \<notin> set fr \<union> set vis" using old by blast
    then show "distinct (vis @ fr @ [n])"
      using D(2) by simp
  next
    fix p assume "p \<in> set (fr @ [n]) \<union> set vis"
    then have p: "p = n \<or> p \<in> set fr \<union> set vis" by auto
    then show "in_bounds g0 p" using D(3) [of p] n_in by (auto simp: inb)
    from p show "isVisited (cell g' p)"
      using D(4) [of p] old [of p] n_cell f(1) other [of p] by auto
    assume w: "walkable g0 p"
    from p show "\<exists>ps. path_between g0 s p ps"
    proof
      assume "p = n"
      from D(5) [of cur] cur cur_walk obtain ps where "path_between g0 s cur ps"
        by (auto simp: wk)
      from path_between_snoc [OF this adj] w \<open>p = n\<close> show ?thesis by blast
    next
      assume "p \<in> set fr \<union> set vis"
      from D(5) [OF this w] show ?thesis .
    qed
  next
    fix p assume "p \<in> set vis"
    then show "walkable g0 p" by (rule D(6))
  qed
  have ext: "extends g g'"
    unfolding g'_def using new(1) f(2) by (rule extends_upd)
  show "tree_inv s (upd g n f)" if ti: "tree_inv s g"
    unfolding g'_def [symmetric] using ti ext
  proof (rule tree_inv_extends_new)
    fix p assume "in_bounds g p" "isVisited (cell g' p)" "\<not> isVisited (cell g p)"
    then have "p = n" using other [of p] by (cases "p = n") simp_all
    from tree_invD [OF ti cur_in cur_vis] obtain ps where "tree g s cur ps" ..
    then have t: "tree g' s cur ps" using ext by (rule tree_extends)
    have w': "walkable g' x = walkable g x" for x
      using walkable_same_shape [OF shape] wk by simp
    from t have "tree g' s n (n # ps)"
      using n_cell f(1,3) n_walk cur_walk adj by (intro tree.link) (simp_all add: w')
    with \<open>p = n\<close> show "\<exists>ps. tree g' s p ps" by blast
  qed
  show "Suc (unvisited (upd g n f)) = unvisited g"
    using S(1) n_in new(1) f(1) by (rule unvisited_mark)
qed

text \<open>The loop over the neighbours, for any step of the shape of \<open>bfs_neighbor\<close> and
  \<open>dfs_neighbor\<close>.\<close>

lemma marked_fold:
  assumes inv: "inv_marked g0 s (g, fr, vis)" and cur: "cur \<in> set vis"
    and ns: "set ns \<subseteq> set (getNeighbors cur g)"
    and step: "\<And>n g fr. step n (g, fr) = (g, fr) \<or>
        (\<not> isVisited (cell g n) \<and> type (cell g n) \<noteq> Wall \<and>
         (\<exists>f. (\<forall>x. isVisited (f x) \<and> type (f x) = type x \<and> previousNode (f x) = Some cur) \<and>
              step n (g, fr) = (upd g n f, fr @ [n])))"
  shows "\<exists>g' fr'. fold step ns (g, fr) = (g', fr') \<and> inv_marked g0 s (g', fr', vis) \<and>
           (tree_inv s g \<longrightarrow> tree_inv s g') \<and>
           2 * unvisited g' + length fr' \<le> 2 * unvisited g + length fr"
proof -
  define P where "P = (\<lambda>(g', fr'). inv_marked g0 s (g', fr', vis) \<and>
           (tree_inv s g \<longrightarrow> tree_inv s g') \<and>
           2 * unvisited g' + length fr' \<le> 2 * unvisited g + length fr)"
  have "P (fold step ns (g, fr))"
  proof (rule fold_inv)
    show "P (g, fr)" using inv by (simp add: P_def)
  next
    fix n st assume n: "n \<in> set ns" and "P st"
    obtain g1 fr1 where st: "st = (g1, fr1)" by (cases st)
    with \<open>P st\<close> have inv1: "inv_marked g0 s (g1, fr1, vis)"
      and ti1: "tree_inv s g \<longrightarrow> tree_inv s g1"
      and m1: "2 * unvisited g1 + length fr1 \<le> 2 * unvisited g + length fr"
      by (simp_all add: P_def)
    from inv_markedD(1) [OF inv1] inv_markedD(1) [OF inv]
    have "getNeighbors cur g1 = getNeighbors cur g"
      by (intro getNeighbors_same_shape) (simp_all add: same_shapeD)
    with n ns have n1: "n \<in> set (getNeighbors cur g1)" by auto
    from step [of n g1 fr1] show "P (step n st)"
    proof
      assume "step n (g1, fr1) = (g1, fr1)"
      with \<open>P st\<close> st show ?thesis by simp
    next
      assume "\<not> isVisited (cell g1 n) \<and> type (cell g1 n) \<noteq> Wall \<and>
         (\<exists>f. (\<forall>x. isVisited (f x) \<and> type (f x) = type x \<and> previousNode (f x) = Some cur) \<and>
              step n (g1, fr1) = (upd g1 n f, fr1 @ [n]))"
      then obtain f where new: "\<not> isVisited (cell g1 n)" "type (cell g1 n) \<noteq> Wall"
        and f: "\<And>x. isVisited (f x)" "\<And>x. type (f x) = type x"
               "\<And>x. previousNode (f x) = Some cur"
        and eq: "step n (g1, fr1) = (upd g1 n f, fr1 @ [n])"
        by blast
      note mp = mark_push [OF inv1 cur n1 new f]
      from mp(3) m1 have "2 * unvisited (upd g1 n f) + length (fr1 @ [n])
          \<le> 2 * unvisited g + length fr"
        by simp
      with mp(1) mp(2) ti1 show ?thesis
        by (simp add: P_def st eq)
    qed
  qed
  then show ?thesis by (cases "fold step ns (g, fr)") (simp add: P_def)
qed

lemma bfs_neighbor_shape:
  "bfs_neighbor cur n (g, fr) = (g, fr) \<or>
        (\<not> isVisited (cell g n) \<and> type (cell g n) \<noteq> Wall \<and>
         (\<exists>f. (\<forall>x. isVisited (f x) \<and> type (f x) = type x \<and> previousNode (f x) = Some cur) \<and>
              bfs_neighbor cur n (g, fr) = (upd g n f, fr @ [n])))"
proof (cases "\<not> isVisited (cell g n) \<and> type (cell g n) \<noteq> Wall")
  case False
  then show ?thesis by (auto simp: bfs_neighbor_def)
next
  case True
  let ?f = "\<lambda>x. x\<lparr>isVisited := True, previousNode := Some cur,
                    distance := distance (cell g cur) + 1\<rparr>"
  from True have "bfs_neighbor cur n (g, fr) = (upd g n ?f, fr @ [n])"
    by (simp add: bfs_neighbor_def)
  with True show ?thesis
    by (intro disjI2 conjI exI [of _ ?f]) simp_all
qed

lemma dfs_neighbor_shape:
  "dfs_neighbor cur n (g, fr) = (g, fr) \<or>
        (\<not> isVisited (cell g n) \<and> type (cell g n) \<noteq> Wall \<and>
         (\<exists>f. (\<forall>x. isVisited (f x) \<and> type (f x) = type x \<and> previousNode (f x) = Some cur) \<and>
              dfs_neighbor cur n (g, fr) = (upd g n f, fr @ [n])))"
proof (cases "\<not> isVisited (cell g n) \<and> type (cell g n) \<noteq> Wall")
  case False
  then show ?thesis by (auto simp: dfs_neighbor_def)
next
  case True
  let ?f = "\<lambda>x. x\<lparr>isVisited := True, previousNode := Some cur\<rparr>"
  from True have "dfs_neighbor cur n (g, fr) = (upd g n ?f, fr @ [n])"
    by (simp add: dfs_neighbor_def)
  with True show ?thesis
    by (intro disjI2 conjI exI [of _ ?f]) simp_all
qed

section \<open>From one turn to the whole loop\<close>

lemma found_Some:
  "found g vis e = Some x \<Longrightarrow>
   \<exists>ps. reconstructPath g e = Some ps \<and>
        x = Inl (\<lparr>visitedNodesInOrder = vis, shortestPath = ps, success = True\<rparr>, g)"
  by (auto simp: found_def)

lemma found_not_Inr: "found g vis e \<noteq> Some (Inr st)"
  by (cases "reconstructPath g e") (simp_all add: found_def)

lemma loop_distinct:
  assumes turn: "\<And>st. I st \<Longrightarrow> turn g0 s e I T m st (body st)"
    and "I st" and "while_loop body st = Some (r, g')"
  shows "distinct (visitedNodesInOrder r)"
proof -
  have "distinct (visitedNodesInOrder (fst (r, g')))"
    using assms(3,2)
  proof (rule while_loop_partial [where I = I])
    fix st st' assume "I st" and b: "body st = Some (Inr st')"
    from turn [OF \<open>I st\<close>] show "I st'"
      unfolding turn_def
    proof (elim disjE exE conjE)
      fix g vis assume "body st = Some (Inl (not_found g vis))"
      with b show ?thesis by simp
    next
      fix g vis assume "body st = found g vis e"
      with b found_not_Inr [of g vis e st'] show ?thesis by simp
    next
      fix st'' assume "body st = Some (Inr st'')" "I st''"
      with b show ?thesis by simp
    qed
  next
    fix st x assume "I st" and b: "body st = Some (Inl x)"
    from turn [OF \<open>I st\<close>] show "distinct (visitedNodesInOrder (fst x))"
      unfolding turn_def
    proof (elim disjE exE conjE)
      fix g vis assume "body st = Some (Inl (not_found g vis))" "distinct vis"
      with b show ?thesis by (auto simp: not_found_def)
    next
      fix g vis assume "body st = found g vis e" "distinct vis"
      with b show ?thesis by (auto simp: found_def)
    next
      fix st' assume "body st = Some (Inr st')"
      with b show ?thesis by simp
    qed
  qed
  then show ?thesis by simp
qed

lemma loop_no_path:
  assumes turn: "\<And>st. I st \<Longrightarrow> turn g0 s e I T m st (body st)"
    and "I st" and none: "\<not> (\<exists>ps. path_between g0 s e ps)"
  shows "\<exists>r g'. while_loop body st = Some (r, g') \<and> \<not> success r \<and> shortestPath r = []"
proof -
  have "\<exists>x. while_loop body st = Some x \<and> (\<not> success (fst x) \<and> shortestPath (fst x) = [])"
    using \<open>I st\<close>
  proof (rule while_loop_total [where I = I and m = m])
    fix st assume "I st"
    from turn [OF this] none
    show "(\<exists>x. body st = Some (Inl x) \<and> \<not> success (fst x) \<and> shortestPath (fst x) = []) \<or>
          (\<exists>st'. body st = Some (Inr st') \<and> I st' \<and> m st' < m st)"
      unfolding turn_def by (auto simp: not_found_def)
  qed
  then show ?thesis by (metis prod.collapse)
qed

lemma loop_total:
  assumes turn: "\<And>st. I st \<Longrightarrow> turn g0 s e I T m st (body st)"
    and "I st" and "T st"
  shows "\<exists>r g'. while_loop body st = Some (r, g') \<and>
           (success r \<longrightarrow> path_between g0 s e (shortestPath r)) \<and>
           (\<not> success r \<longrightarrow> shortestPath r = [])"
proof -
  have "\<exists>x. while_loop body st = Some x \<and>
           ((success (fst x) \<longrightarrow> path_between g0 s e (shortestPath (fst x))) \<and>
            (\<not> success (fst x) \<longrightarrow> shortestPath (fst x) = []))"
  proof (rule while_loop_total [where I = "\<lambda>st. I st \<and> T st" and m = m])
    show "I st \<and> T st" using assms(2,3) by simp
  next
    fix st assume IT: "I st \<and> T st"
    then have "turn g0 s e I T m st (body st)" using turn by simp
    then show "(\<exists>x. body st = Some (Inl x) \<and>
             ((success (fst x) \<longrightarrow> path_between g0 s e (shortestPath (fst x))) \<and>
              (\<not> success (fst x) \<longrightarrow> shortestPath (fst x) = []))) \<or>
          (\<exists>st'. body st = Some (Inr st') \<and> (I st' \<and> T st') \<and> m st' < m st)"
      unfolding turn_def
    proof (elim disjE exE conjE)
      fix g vis assume "body st = Some (Inl (not_found g vis))"
      then show ?thesis by (simp add: not_found_def)
    next
      fix g vis
      assume b: "body st = found g vis e" and sh: "same_shape g0 g" and e: "in_bounds g0 e"
        "isVisited (cell g e)" "walkable g0 e" and t: "T st \<longrightarrow> tree_inv s g"
      from t IT have "tree_inv s g" by simp
      from tree_inv_found [OF this sh e] obtain ps where
        "reconstructPath g e = Some ps" "path_between g0 s e ps" by blast
      with b show ?thesis by (simp add: found_def)
    next
      fix st' assume "body st = Some (Inr st')" "I st'" "T st \<longrightarrow> T st'" "m st' < m st"
      with IT show ?thesis by simp
    qed
  qed
  then show ?thesis by (metis prod.collapse)
qed

section \<open>One turn of \<open>bfs\<close> and of \<open>dfs\<close>\<close>

lemma marked_pop:
  assumes inv: "inv_marked g0 s (g, fr, vis)"
    and fr: "set fr = insert cur (set fr')" "distinct fr'" "cur \<notin> set fr'"
  shows "inv_marked g0 s (g, fr', vis)"
    and "type (cell g cur) \<noteq> Wall \<Longrightarrow> inv_marked g0 s (g, fr', vis @ [cur])"
    and "type (cell g cur) \<noteq> Wall \<Longrightarrow> walkable g0 cur"
    and "in_bounds g0 cur" "isVisited (cell g cur)" "distinct (vis @ [cur])"
    and "walkable g0 cur \<Longrightarrow> \<exists>ps. path_between g0 s cur ps"
proof -
  note D = inv_markedD [OF inv]
  have cur: "cur \<in> set fr \<union> set vis" using fr(1) by simp
  have sub: "p \<in> set fr' \<union> set vis \<Longrightarrow> p \<in> set fr \<union> set vis" for p
    using fr(1) by auto
  from D(2) have dv: "distinct vis" and disj: "set vis \<inter> set fr = {}" by simp_all
  from disj fr(1) have cv: "cur \<notin> set vis" and disj': "set vis \<inter> set fr' = {}" by auto
  show inb: "in_bounds g0 cur" using D(3) [OF cur] .
  show "isVisited (cell g cur)" using D(4) [OF cur] .
  show "distinct (vis @ [cur])" using dv cv by simp
  show path: "\<exists>ps. path_between g0 s cur ps" if "walkable g0 cur"
    using D(5) [OF cur that] .
  show "inv_marked g0 s (g, fr', vis)"
    using D(1) dv disj' fr(2) D(3) [OF sub] D(4) [OF sub] D(5) [OF sub] D(6)
    by (intro inv_markedI) simp_all
  assume nw: "type (cell g cur) \<noteq> Wall"
  with same_shapeD(4) [OF D(1) inb] inb show w: "walkable g0 cur"
    by (simp add: walkable_def)
  have sub2: "p \<in> set fr' \<union> set (vis @ [cur]) \<Longrightarrow> p \<in> set fr \<union> set vis" for p
    using fr(1) by auto
  show "inv_marked g0 s (g, fr', vis @ [cur])"
  proof (rule inv_markedI)
    show "same_shape g0 g" by fact
    show "distinct ((vis @ [cur]) @ fr')" using dv cv disj' fr(2,3) by simp
  next
    fix p assume "p \<in> set fr' \<union> set (vis @ [cur])"
    then have p: "p \<in> set fr \<union> set vis" by (rule sub2)
    show "in_bounds g0 p" using D(3) [OF p] .
    show "isVisited (cell g p)" using D(4) [OF p] .
    assume "walkable g0 p"
    then show "\<exists>ps. path_between g0 s p ps" using D(5) [OF p] by simp
  next
    fix p assume "p \<in> set (vis @ [cur])"
    then show "walkable g0 p" using D(6) [of p] w by auto
  qed
qed

lemma marked_turn:
  assumes inv: "inv_marked g0 s (g, fr, vis)"
    and fr: "set fr = insert cur (set fr')" "distinct fr'" "cur \<notin> set fr'"
      "length fr = Suc (length fr')"
    and ns: "set ns \<subseteq> set (getNeighbors cur g)"
    and step: "\<And>n g fr. step n (g, fr) = (g, fr) \<or>
        (\<not> isVisited (cell g n) \<and> type (cell g n) \<noteq> Wall \<and>
         (\<exists>f. (\<forall>x. isVisited (f x) \<and> type (f x) = type x \<and> previousNode (f x) = Some cur) \<and>
              step n (g, fr) = (upd g n f, fr @ [n])))"
  shows "turn g0 s e (inv_marked g0 s) (\<lambda>(g, fr, vis). tree_inv s g)
           (\<lambda>(g, fr, vis). 2 * unvisited g + length fr) (g, fr, vis)
           (if type (cell g cur) = Wall then Some (Inr (g, fr', vis))
            else if cur = e then found g (vis @ [cur]) e
            else (case fold step ns (g, fr') of
                    (g', fr'') \<Rightarrow> Some (Inr (g', fr'', vis @ [cur]))))"
proof -
  note P = marked_pop [OF inv fr(1-3)]
  show ?thesis
  proof (cases "type (cell g cur) = Wall")
    case True
    with P(1) fr(4) show ?thesis by (simp add: turn_def)
  next
    case nw: False
    show ?thesis
    proof (cases "cur = e")
      case True
      from P(7) [OF P(3) [OF nw]] P(3) [OF nw] P(4,5,6) True nw inv_markedD(1) [OF inv]
      show ?thesis
        unfolding turn_def
        by (intro disjI2 disjI1 exI [of _ g] exI [of _ "vis @ [cur]"]) simp
    next
      case False
      from marked_fold [OF P(2) [OF nw] _ ns step] obtain g' fr''
        where "fold step ns (g, fr') = (g', fr'')" "inv_marked g0 s (g', fr'', vis @ [cur])"
          "tree_inv s g \<longrightarrow> tree_inv s g'"
          "2 * unvisited g' + length fr'' \<le> 2 * unvisited g + length fr'"
        by auto
      with nw False fr(4) show ?thesis by (simp add: turn_def)
    qed
  qed
qed

lemma bfs_turn:
  assumes "inv_marked g0 s st"
  shows "turn g0 s e (inv_marked g0 s) (\<lambda>(g, fr, vis). tree_inv s g)
           (\<lambda>(g, fr, vis). 2 * unvisited g + length fr) st (bfs_body e st)"
proof -
  obtain g fr vis where st: "st = (g, fr, vis)" by (cases st)
  show ?thesis
  proof (cases fr)
    case Nil
    with assms st inv_markedD(2) [of g0 s g fr vis] show ?thesis
      by (simp add: bfs_body_def turn_def) blast
  next
    case (Cons cur fr')
    with assms st inv_markedD(2) [of g0 s g fr vis]
    have "set fr = insert cur (set fr')" "distinct fr'" "cur \<notin> set fr'"
      "length fr = Suc (length fr')"
      by simp_all
    from marked_turn [OF assms [unfolded st] this subset_refl bfs_neighbor_shape, where e = e]
    show ?thesis by (simp add: st Cons bfs_body_def)
  qed
qed

lemma dfs_turn:
  assumes "inv_marked g0 s st"
  shows "turn g0 s e (inv_marked g0 s) (\<lambda>(g, fr, vis). tree_inv s g)
           (\<lambda>(g, fr, vis). 2 * unvisited g + length fr) st (dfs_body e st)"
proof -
  obtain g fr vis where st: "st = (g, fr, vis)" by (cases st)
  show ?thesis
  proof (cases "fr = []")
    case True
    with assms st inv_markedD(2) [of g0 s g fr vis] show ?thesis
      by (simp add: dfs_body_def turn_def) blast
  next
    case False
    then have fr: "fr = butlast fr @ [last fr]" by simp
    from assms st inv_markedD(2) [of g0 s g fr vis] have "distinct fr" by simp
    with fr have "distinct (butlast fr @ [last fr])" by simp
    then have d: "distinct (butlast fr)" "last fr \<notin> set (butlast fr)" by simp_all
    have "set fr = insert (last fr) (set (butlast fr))"
      by (subst fr) simp
    moreover have "length fr = Suc (length (butlast fr))"
      using False by simp
    moreover have "set (rev (getNeighbors (last fr) g)) \<subseteq> set (getNeighbors (last fr) g)"
      by simp
    ultimately show ?thesis
      using marked_turn [OF assms [unfolded st] _ d _ _ dfs_neighbor_shape,
          where ns = "rev (getNeighbors (last fr) g)" and e = e] False
      by (simp add: st dfs_body_def Let_def)
  qed
qed

section \<open>The start of \<open>bfs\<close> and of \<open>dfs\<close>\<close>

lemma freshD:
  assumes "fresh g" and "rect g" and "in_bounds g p"
  shows "\<not> isVisited (cell g p)" "previousNode (cell g p) = None"
proof -
  from assms(2,3) have "fst p < length g" "snd p < length (g ! fst p)"
    by (simp_all add: in_bounds_def rows_def rect_nth)
  with assms(1) have "\<not> isVisited (g ! fst p ! snd p) \<and> previousNode (g ! fst p ! snd p) = None"
    by (simp add: fresh_def list_all_length)
  then show "\<not> isVisited (cell g p)" "previousNode (cell g p) = None"
    by (simp_all add: cell_def)
qed

lemma same_shape_refl: "rect g \<Longrightarrow> same_shape g g"
  by (simp add: same_shape_def)

lemma marked_start:
  assumes "rect g0" and "in_bounds g0 s"
    and f: "\<And>x. isVisited (f x)" "\<And>x. type (f x) = type x"
      "\<And>x. previousNode (f x) = previousNode x"
  shows "inv_marked g0 s (upd g0 s f, [s], [])"
    and "fresh g0 \<Longrightarrow> tree_inv s (upd g0 s f)"
proof -
  define g where "g = upd g0 s f"
  have shape: "same_shape g0 g"
    unfolding g_def using same_shape_refl [OF assms(1)] f(2) by (rule same_shape_upd)
  have cs: "cell g s = f (cell g0 s)"
    unfolding g_def using assms(1,2) by (rule cell_upd_same)
  show "inv_marked g0 s (upd g0 s f, [s], [])"
    unfolding g_def [symmetric]
    using shape assms(2) cs f(1) path_between_self [of g0 s]
    by (intro inv_markedI) auto
  assume fr: "fresh g0"
  show "tree_inv s (upd g0 s f)"
    unfolding g_def [symmetric] tree_inv_def
  proof (intro allI impI)
    fix p assume p: "in_bounds g p \<and> isVisited (cell g p)"
    then have inb: "in_bounds g0 p" by (simp add: g_def)
    have "p = s"
    proof (rule ccontr)
      assume "p \<noteq> s"
      then have "cell g p = cell g0 p" by (simp add: g_def)
      with p freshD(1) [OF fr assms(1) inb] show False by simp
    qed
    moreover have "tree g s s [s]"
      using cs f(1,3) freshD(2) [OF fr assms(1,2)] assms(2)
      by (intro tree.root) (simp_all add: g_def)
    ultimately show "\<exists>ps. tree g s p ps" by blast
  qed
qed

section \<open>Marking a cell when it is taken from the open set (\<open>astar\<close>, \<open>greedyBFS\<close>, \<open>uniformCostSearch\<close>)\<close>

lemma inv_openD:
  assumes "inv_open g0 s (g, fr, vis)"
  shows "same_shape g0 g" "distinct vis"
    "p \<in> set fr \<Longrightarrow> in_bounds g0 p"
    "p \<in> set fr \<Longrightarrow> walkable g0 p \<Longrightarrow> \<exists>ps. path_between g0 s p ps"
    "p \<in> set vis \<Longrightarrow> in_bounds g0 p"
    "p \<in> set vis \<Longrightarrow> isVisited (cell g p)"
    "p \<in> set vis \<Longrightarrow> walkable g0 p"
    "p \<in> set vis \<Longrightarrow> \<exists>ps. path_between g0 s p ps"
  using assms unfolding inv_open_def by (simp, simp, blast+)

lemma inv_openI:
  assumes "same_shape g0 g" "distinct vis"
    "\<And>p. p \<in> set fr \<Longrightarrow> in_bounds g0 p"
    "\<And>p. p \<in> set fr \<Longrightarrow> walkable g0 p \<Longrightarrow> \<exists>ps. path_between g0 s p ps"
    "\<And>p. p \<in> set vis \<Longrightarrow> in_bounds g0 p"
    "\<And>p. p \<in> set vis \<Longrightarrow> isVisited (cell g p)"
    "\<And>p. p \<in> set vis \<Longrightarrow> walkable g0 p"
    "\<And>p. p \<in> set vis \<Longrightarrow> \<exists>ps. path_between g0 s p ps"
  shows "inv_open g0 s (g, fr, vis)"
  using assms unfolding inv_open_def by simp

lemma tree_openD:
  assumes "tree_open s (g, fr, vis)"
  shows "tree_inv s g" "q \<in> set fr \<Longrightarrow> \<not> isVisited (cell g q) \<Longrightarrow> pending g s q"
  using assms unfolding tree_open_def by (simp, blast)

lemma tree_openI:
  assumes "tree_inv s g" "\<And>q. q \<in> set fr \<Longrightarrow> \<not> isVisited (cell g q) \<Longrightarrow> pending g s q"
  shows "tree_open s (g, fr, vis)"
  using assms unfolding tree_open_def by simp

lemma pending_later:
  assumes "pending g s q" and "in_bounds g c" and "isVisited (cell g c)"
  shows "\<exists>c. previousNode (cell g q) = Some c \<and> isVisited (cell g c) \<and> walkable g c \<and> adjacent c q"
  using assms unfolding pending_def by blast

lemma pendingI:
  "previousNode (cell g q) = Some c \<Longrightarrow> isVisited (cell g c) \<Longrightarrow> walkable g c \<Longrightarrow>
   adjacent c q \<Longrightarrow> pending g s q"
  unfolding pending_def by blast

lemma walkable_extends: "extends g g' \<Longrightarrow> walkable g p \<Longrightarrow> walkable g' p"
  using extendsD(1,2) [of g g'] extendsD(3) [of g g' p]
  by (auto simp: walkable_def in_bounds_def)

text \<open>The cell taken from the open set, unvisited and not a wall, is marked.\<close>

lemma open_mark:
  assumes inv: "inv_open g0 s (g, fr, vis)" and cur: "cur \<in> set fr"
    and rest: "set rest \<subseteq> set fr"
    and new: "\<not> isVisited (cell g cur)" "type (cell g cur) \<noteq> Wall"
  shows "inv_open g0 s (upd g cur (\<lambda>n. n\<lparr>isVisited := True\<rparr>), rest, vis @ [cur])"
    and "tree_open s (g, fr, vis) \<Longrightarrow>
           tree_open s (upd g cur (\<lambda>n. n\<lparr>isVisited := True\<rparr>), rest, vis @ [cur])"
    and "Suc (unvisited (upd g cur (\<lambda>n. n\<lparr>isVisited := True\<rparr>))) = unvisited g"
    and "walkable g0 cur" "in_bounds g0 cur" "\<exists>ps. path_between g0 s cur ps"
    and "isVisited (cell (upd g cur (\<lambda>n. n\<lparr>isVisited := True\<rparr>)) cur)"
proof -
  note D = inv_openD [OF inv]
  note S = same_shapeD [OF D(1)]
  have inb: "in_bounds g p = in_bounds g0 p" for p
    using D(1) by (rule in_bounds_same_shape)
  have wk: "walkable g p = walkable g0 p" for p
    using D(1) by (rule walkable_same_shape)
  show cur_in: "in_bounds g0 cur" using D(3) [OF cur] .
  with new(2) S(4) [OF cur_in] show cur_walk: "walkable g0 cur"
    by (simp add: walkable_def)
  show cur_path: "\<exists>ps. path_between g0 s cur ps" using D(4) [OF cur cur_walk] .
  define g1 where "g1 = upd g cur (\<lambda>n. n\<lparr>isVisited := True\<rparr>)"
  have shape: "same_shape g0 g1"
    unfolding g1_def using D(1) by (rule same_shape_upd) simp
  have c1: "cell g1 cur = (cell g cur)\<lparr>isVisited := True\<rparr>"
    unfolding g1_def using S(1) cur_in by (intro cell_upd_same) (simp_all add: inb)
  have other: "cell g1 p = cell g p" if "p \<noteq> cur" for p
    unfolding g1_def using that by simp
  show "isVisited (cell (upd g cur (\<lambda>n. n\<lparr>isVisited := True\<rparr>)) cur)"
    unfolding g1_def [symmetric] by (simp add: c1)
  have cv: "cur \<notin> set vis" using D(6) [of cur] new(1) by blast
  show "inv_open g0 s (upd g cur (\<lambda>n. n\<lparr>isVisited := True\<rparr>), rest, vis @ [cur])"
    unfolding g1_def [symmetric]
  proof (rule inv_openI)
    show "same_shape g0 g1" by fact
    show "distinct (vis @ [cur])" using D(2) cv by simp
  next
    fix p assume "p \<in> set rest"
    with rest have p: "p \<in> set fr" by blast
    show "in_bounds g0 p" using D(3) [OF p] .
    assume "walkable g0 p"
    then show "\<exists>ps. path_between g0 s p ps" using D(4) [OF p] by simp
  next
    fix p assume "p \<in> set (vis @ [cur])"
    then have p: "p \<in> set vis \<or> p = cur" by auto
    then show "in_bounds g0 p" using D(5) [of p] cur_in by blast
    from p show "isVisited (cell g1 p)"
      using D(6) [of p] c1 other [of p] by (cases "p = cur") simp_all
    from p show "walkable g0 p" using D(7) [of p] cur_walk by blast
    from p show "\<exists>ps. path_between g0 s p ps" using D(8) [of p] cur_path by blast
  qed
  show "Suc (unvisited (upd g cur (\<lambda>n. n\<lparr>isVisited := True\<rparr>))) = unvisited g"
    using S(1) cur_in new(1) by (intro unvisited_mark) (simp_all add: inb)
  have ext: "extends g g1"
    unfolding g1_def using new(1) by (rule extends_upd) simp
  assume T: "tree_open s (g, fr, vis)"
  note TD = tree_openD [OF T]
  have pc: "pending g s cur" using TD(2) [OF cur new(1)] .
  have w1: "walkable g1 p" if "walkable g p" for p
    using ext that by (rule walkable_extends)
  have ti1: "tree_inv s g1"
    using TD(1) ext
  proof (rule tree_inv_extends_new)
    fix p assume "in_bounds g p" "isVisited (cell g1 p)" "\<not> isVisited (cell g p)"
    then have p: "p = cur" using other [of p] by (cases "p = cur") simp_all
    from pc have "\<exists>ps. tree g1 s cur ps"
      unfolding pending_def
    proof (elim disjE conjE exE)
      assume "cur = s" "previousNode (cell g cur) = None"
      then have "tree g1 s s [s]"
        using c1 cur_in shape by (intro tree.root) (simp_all add: in_bounds_same_shape)
      with \<open>cur = s\<close> show ?thesis by blast
    next
      fix c assume c: "previousNode (cell g cur) = Some c" "isVisited (cell g c)"
        "walkable g c" "adjacent c cur"
      from c(3) have "in_bounds g c" by (simp add: walkable_def)
      from tree_invD [OF TD(1) this c(2)] obtain ps where "tree g s c ps" ..
      then have "tree g1 s c ps" using ext by (rule tree_extends)
      then have "tree g1 s cur (cur # ps)"
        using c c1 cur_walk w1 [of cur] w1 [of c]
        by (intro tree.link) (simp_all add: wk)
      then show ?thesis ..
    qed
    with p show "\<exists>ps. tree g1 s p ps" by simp
  qed
  show "tree_open s (upd g cur (\<lambda>n. n\<lparr>isVisited := True\<rparr>), rest, vis @ [cur])"
    unfolding g1_def [symmetric] using ti1
  proof (rule tree_openI)
    fix q assume q: "q \<in> set rest" "\<not> isVisited (cell g1 q)"
    then have "q \<noteq> cur" using c1 by auto
    with q have qu: "\<not> isVisited (cell g q)" and qf: "q \<in> set fr"
      using other [of q] rest by auto
    have "\<exists>c. previousNode (cell g q) = Some c \<and> isVisited (cell g c) \<and> walkable g c \<and>
               adjacent c q"
      using TD(2) [OF qf qu] unfolding pending_def
    proof (elim disjE conjE)
      assume "q = s" and none: "\<forall>p. in_bounds g p \<longrightarrow> \<not> isVisited (cell g p)"
      from pc \<open>q \<noteq> cur\<close> \<open>q = s\<close> obtain c where "isVisited (cell g c)" "walkable g c"
        unfolding pending_def by blast
      with none show ?thesis by (auto simp: walkable_def)
    qed
    then obtain c where c: "previousNode (cell g q) = Some c" "isVisited (cell g c)"
      "walkable g c" "adjacent c q" by blast
    from c(3) have "in_bounds g c" by (simp add: walkable_def)
    from extendsD(4) [OF ext this c(2)] c w1 [OF c(3)] other [OF \<open>q \<noteq> cur\<close>]
    show "pending g1 s q" by (intro pendingI [of g1 q c]) simp_all
  qed
qed

text \<open>A neighbour of the current cell, unvisited and not a wall, is linked to the
  current cell, and may be put into the open set.\<close>

lemma open_relax:
  assumes inv: "inv_open g0 s (g, fr, vis)" and cur: "cur \<in> set vis"
    and n: "n \<in> set (getNeighbors cur g)"
    and new: "\<not> isVisited (cell g n)" "type (cell g n) \<noteq> Wall"
    and f: "\<And>x. isVisited (f x) = isVisited x" "\<And>x. type (f x) = type x"
      "\<And>x. previousNode (f x) = Some cur"
    and fr': "fr' = fr \<or> fr' = fr @ [n]"
  shows "inv_open g0 s (upd g n f, fr', vis)"
    and "tree_open s (g, fr, vis) \<Longrightarrow> tree_open s (upd g n f, fr', vis)"
    and "unvisited (upd g n f) = unvisited g"
proof -
  note D = inv_openD [OF inv]
  note S = same_shapeD [OF D(1)]
  have inb: "in_bounds g p = in_bounds g0 p" for p
    using D(1) by (rule in_bounds_same_shape)
  have wk: "walkable g p = walkable g0 p" for p
    using D(1) by (rule walkable_same_shape)
  from cur have cur_in: "in_bounds g cur" and cur_vis: "isVisited (cell g cur)"
    and cur_walk: "walkable g cur"
    using D(5) [of cur] D(6) [of cur] D(7) [of cur] by (simp_all add: inb wk)
  from getNeighbors_props [OF cur_in n] have n_in: "in_bounds g n" and adj: "adjacent cur n"
    by simp_all
  define g' where "g' = upd g n f"
  have shape: "same_shape g0 g'"
    unfolding g'_def using D(1) f(2) by (rule same_shape_upd)
  have n_cell: "cell g' n = f (cell g n)"
    unfolding g'_def using S(1) n_in by (rule cell_upd_same)
  have other: "cell g' p = cell g p" if "p \<noteq> n" for p
    unfolding g'_def using that by simp
  have vis_same: "isVisited (cell g' p) = isVisited (cell g p)" for p
    using n_cell f(1) other [of p] by (cases "p = n") simp_all
  have in_fr: "p \<in> set fr \<or> p = n" if "p \<in> set fr'" for p
    using that fr' by auto
  show "inv_open g0 s (upd g n f, fr', vis)"
    unfolding g'_def [symmetric]
  proof (rule inv_openI)
    show "same_shape g0 g'" by fact
    show "distinct vis" by fact
  next
    fix p assume "p \<in> set fr'"
    then have p: "p \<in> set fr \<or> p = n" by (rule in_fr)
    then show "in_bounds g0 p" using D(3) [of p] n_in by (auto simp: inb)
    assume w: "walkable g0 p"
    from p show "\<exists>ps. path_between g0 s p ps"
    proof
      assume "p \<in> set fr"
      from D(4) [OF this w] show ?thesis .
    next
      assume "p = n"
      from D(8) [OF cur] obtain ps where "path_between g0 s cur ps" ..
      from path_between_snoc [OF this adj] w \<open>p = n\<close> show ?thesis by blast
    qed
  next
    fix p assume p: "p \<in> set vis"
    show "in_bounds g0 p" using D(5) [OF p] .
    show "isVisited (cell g' p)" using D(6) [OF p] by (simp add: vis_same)
    show "walkable g0 p" using D(7) [OF p] .
    show "\<exists>ps. path_between g0 s p ps" using D(8) [OF p] .
  qed
  show "unvisited (upd g n f) = unvisited g"
    using f(1) by (rule unvisited_keep)
  have ext: "extends g g'"
    unfolding g'_def using new(1) f(2) by (rule extends_upd)
  assume T: "tree_open s (g, fr, vis)"
  note TD = tree_openD [OF T]
  have ti': "tree_inv s g'"
    using TD(1) ext
  proof (rule tree_inv_extends_new)
    fix p assume "isVisited (cell g' p)" "\<not> isVisited (cell g p)"
    then show "\<exists>ps. tree g' s p ps" by (simp add: vis_same)
  qed
  show "tree_open s (upd g n f, fr', vis)"
    unfolding g'_def [symmetric] using ti'
  proof (rule tree_openI)
    fix q assume q: "q \<in> set fr'" "\<not> isVisited (cell g' q)"
    show "pending g' s q"
    proof (cases "q = n")
      case True
      from extendsD(4) [OF ext cur_in cur_vis] walkable_extends [OF ext cur_walk]
      show ?thesis
        using n_cell f(3) adj True by (intro pendingI [of g' q cur]) simp_all
    next
      case False
      with q in_fr [of q] have qf: "q \<in> set fr" and qu: "\<not> isVisited (cell g q)"
        by (simp_all add: vis_same)
      from pending_later [OF TD(2) [OF qf qu] cur_in cur_vis]
      obtain c where c: "previousNode (cell g q) = Some c" "isVisited (cell g c)"
        "walkable g c" "adjacent c q" by blast
      from c(3) have "in_bounds g c" by (simp add: walkable_def)
      from extendsD(4) [OF ext this c(2)] walkable_extends [OF ext c(3)] c other [OF False]
      show ?thesis by (intro pendingI [of g' q c]) simp_all
    qed
  qed
qed


lemma open_fold:
  assumes cur: "cur \<in> set vis"
    and step: "\<And>n g fr. step n (g, fr) = (g, fr) \<or>
        (\<not> isVisited (cell g n) \<and> type (cell g n) \<noteq> Wall \<and>
         (\<exists>f fr'. (\<forall>x. isVisited (f x) = isVisited x \<and> type (f x) = type x \<and>
                        previousNode (f x) = Some cur) \<and>
              (fr' = fr \<or> fr' = fr @ [n]) \<and> step n (g, fr) = (upd g n f, fr')))"
  shows "inv_open g0 s (g, fr, vis) \<Longrightarrow> set ns \<subseteq> set (getNeighbors cur g) \<Longrightarrow>
         \<exists>g' fr'. fold step ns (g, fr) = (g', fr') \<and> inv_open g0 s (g', fr', vis) \<and>
           (tree_open s (g, fr, vis) \<longrightarrow> tree_open s (g', fr', vis)) \<and>
           unvisited g' = unvisited g \<and> length fr' \<le> length fr + length ns"
proof (induction ns arbitrary: g fr)
  case Nil
  then show ?case by simp
next
  case (Cons n ns)
  from Cons.prems(2) have n: "n \<in> set (getNeighbors cur g)"
    and ns: "set ns \<subseteq> set (getNeighbors cur g)" by simp_all
  have "\<exists>g1 fr1. step n (g, fr) = (g1, fr1) \<and> inv_open g0 s (g1, fr1, vis) \<and>
           (tree_open s (g, fr, vis) \<longrightarrow> tree_open s (g1, fr1, vis)) \<and>
           unvisited g1 = unvisited g \<and> length fr1 \<le> length fr + 1"
    using step [of n g fr]
  proof
    assume "step n (g, fr) = (g, fr)"
    with Cons.prems(1) show ?thesis by simp
  next
    assume "\<not> isVisited (cell g n) \<and> type (cell g n) \<noteq> Wall \<and>
         (\<exists>f fr'. (\<forall>x. isVisited (f x) = isVisited x \<and> type (f x) = type x \<and>
                        previousNode (f x) = Some cur) \<and>
              (fr' = fr \<or> fr' = fr @ [n]) \<and> step n (g, fr) = (upd g n f, fr'))"
    then obtain f fr' where new: "\<not> isVisited (cell g n)" "type (cell g n) \<noteq> Wall"
      and f: "\<And>x. isVisited (f x) = isVisited x" "\<And>x. type (f x) = type x"
             "\<And>x. previousNode (f x) = Some cur"
      and fr': "fr' = fr \<or> fr' = fr @ [n]"
      and eq: "step n (g, fr) = (upd g n f, fr')"
      by blast
    note R = open_relax [OF Cons.prems(1) cur n new f fr']
    from fr' have "length fr' \<le> length fr + 1" by auto
    with R eq show ?thesis by simp
  qed
  then obtain g1 fr1 where s1: "step n (g, fr) = (g1, fr1)"
    and inv1: "inv_open g0 s (g1, fr1, vis)"
    and t1: "tree_open s (g, fr, vis) \<longrightarrow> tree_open s (g1, fr1, vis)"
    and u1: "unvisited g1 = unvisited g" and l1: "length fr1 \<le> length fr + 1"
    by blast
  from inv_openD(1) [OF inv1] inv_openD(1) [OF Cons.prems(1)]
  have "getNeighbors cur g1 = getNeighbors cur g"
    by (intro getNeighbors_same_shape) (simp_all add: same_shapeD)
  with ns have "set ns \<subseteq> set (getNeighbors cur g1)" by simp
  from Cons.IH [OF inv1 this] obtain g' fr' where
    "fold step ns (g1, fr1) = (g', fr')" "inv_open g0 s (g', fr', vis)"
    "tree_open s (g1, fr1, vis) \<longrightarrow> tree_open s (g', fr', vis)"
    "unvisited g' = unvisited g1" "length fr' \<le> length fr1 + length ns"
    by blast
  with s1 t1 u1 l1 show ?case by simp
qed

section \<open>One turn of \<open>astar\<close>, \<open>greedyBFS\<close> and \<open>uniformCostSearch\<close>\<close>

lemma open_turn:
  assumes inv: "inv_open g0 s (g, fr, vis)"
    and srt: "set srt = set fr" "length srt = length fr"
    and step: "\<And>cur n g fr. step cur n (g, fr) = (g, fr) \<or>
        (\<not> isVisited (cell g n) \<and> type (cell g n) \<noteq> Wall \<and>
         (\<exists>f fr'. (\<forall>x. isVisited (f x) = isVisited x \<and> type (f x) = type x \<and>
                        previousNode (f x) = Some cur) \<and>
              (fr' = fr \<or> fr' = fr @ [n]) \<and> step cur n (g, fr) = (upd g n f, fr')))"
  shows "turn g0 s e (inv_open g0 s) (tree_open s)
           (\<lambda>(g, fr, vis). 5 * unvisited g + length fr) (g, fr, vis)
           (case srt of
              [] \<Rightarrow> Some (Inl (not_found g vis))
            | cur # rest \<Rightarrow>
                if type (cell g cur) = Wall then Some (Inr (g, rest, vis))
                else if isVisited (cell g cur) then Some (Inr (g, rest, vis))
                else let g1 = upd g cur (\<lambda>n. n\<lparr>isVisited := True\<rparr>) in
                  if cur = e then found g1 (vis @ [cur]) e
                  else (case fold (step cur) (getNeighbors cur g1) (g1, rest) of
                          (g', fr'') \<Rightarrow> Some (Inr (g', fr'', vis @ [cur]))))"
proof (cases srt)
  case Nil
  with inv_openD(2) [OF inv] show ?thesis by (simp add: turn_def) blast
next
  case (Cons cur rest)
  with srt have cur: "cur \<in> set fr" and rest: "set rest \<subseteq> set fr"
    and len: "length fr = Suc (length rest)" by auto
  note D = inv_openD [OF inv]
  have skip: "inv_open g0 s (g, rest, vis)"
    using D(1,2) D(3) D(4) D(5) D(6) D(7) D(8) rest
    by (intro inv_openI) auto
  have tskip: "tree_open s (g, fr, vis) \<longrightarrow> tree_open s (g, rest, vis)"
    using rest by (auto simp: tree_open_def)
  show ?thesis
  proof (cases "type (cell g cur) = Wall \<or> isVisited (cell g cur)")
    case True
    with skip tskip len Cons show ?thesis by (auto simp: turn_def)
  next
    case False
    then have new: "\<not> isVisited (cell g cur)" "type (cell g cur) \<noteq> Wall" by simp_all
    define g1 where "g1 = upd g cur (\<lambda>n. n\<lparr>isVisited := True\<rparr>)"
    note M = open_mark [OF inv cur rest new, folded g1_def]
    have dv: "distinct (vis @ [cur])" using inv_openD(2) [OF M(1)] .
    show ?thesis
    proof (cases "cur = e")
      case True
      have "tree_open s (g, fr, vis) \<longrightarrow> tree_inv s g1"
        using M(2) by (auto simp: tree_open_def)
      with M(4,5,6,7) dv inv_openD(1) [OF M(1)] True new Cons show ?thesis
        unfolding turn_def
        apply -
        apply (rule disjI2 [OF disjI1])
        apply (rule exI [of _ g1])
        apply (rule exI [of _ "vis @ [cur]"])
        apply (simp add: Let_def g1_def)
        done
    next
      case ne: False
      have cv: "cur \<in> set (vis @ [cur])" by simp
      from open_fold [OF cv step M(1) subset_refl] obtain g' fr''
        where f: "fold (step cur) (getNeighbors cur g1) (g1, rest) = (g', fr'')"
          and i: "inv_open g0 s (g', fr'', vis @ [cur])"
          and t: "tree_open s (g1, rest, vis @ [cur]) \<longrightarrow> tree_open s (g', fr'', vis @ [cur])"
          and u: "unvisited g' = unvisited g1"
          and l: "length fr'' \<le> length rest + length (getNeighbors cur g1)"
        by blast
      from l length_getNeighbors [of cur g1] have "length fr'' \<le> length rest + 4" by simp
      with u M(3) len have "5 * unvisited g' + length fr'' < 5 * unvisited g + length fr"
        by simp
      moreover have "tree_open s (g, fr, vis) \<longrightarrow> tree_open s (g', fr'', vis @ [cur])"
        using M(2) t by blast
      ultimately show ?thesis
        using i f new ne Cons
        by (simp add: turn_def Let_def g1_def [symmetric])
    qed
  qed
qed

lemma astar_neighbor_shape:
  "astar_neighbor e cur n (g, fr) = (g, fr) \<or>
        (\<not> isVisited (cell g n) \<and> type (cell g n) \<noteq> Wall \<and>
         (\<exists>f fr'. (\<forall>x. isVisited (f x) = isVisited x \<and> type (f x) = type x \<and>
                        previousNode (f x) = Some cur) \<and>
              (fr' = fr \<or> fr' = fr @ [n]) \<and> astar_neighbor e cur n (g, fr) = (upd g n f, fr')))"
proof (cases "\<not> isVisited (cell g n) \<and> type (cell g n) \<noteq> Wall \<and>
    distance (cell g cur) + 1 < distance (cell g n)")
  case False
  then show ?thesis by (auto simp: astar_neighbor_def Let_def)
next
  case True
  let ?f = "\<lambda>x. x\<lparr>distance := distance (cell g cur) + 1,
                   heuristic := manhattanDistance n e, previousNode := Some cur\<rparr>"
  show ?thesis
  proof (cases "n \<in> set fr")
    case inside: True
    with True show ?thesis
      apply -
      apply (rule disjI2)
      apply (intro conjI exI [of _ ?f] exI [of _ fr])
      apply (simp_all add: astar_neighbor_def Let_def)
      done
  next
    case False
    with True show ?thesis
      by (intro disjI2 conjI exI [of _ ?f] exI [of _ "fr @ [n]"])
         (simp_all add: astar_neighbor_def Let_def)
  qed
qed

lemma ucs_neighbor_shape:
  "ucs_neighbor cur n (g, fr) = (g, fr) \<or>
        (\<not> isVisited (cell g n) \<and> type (cell g n) \<noteq> Wall \<and>
         (\<exists>f fr'. (\<forall>x. isVisited (f x) = isVisited x \<and> type (f x) = type x \<and>
                        previousNode (f x) = Some cur) \<and>
              (fr' = fr \<or> fr' = fr @ [n]) \<and> ucs_neighbor cur n (g, fr) = (upd g n f, fr')))"
proof (cases "\<not> isVisited (cell g n) \<and> type (cell g n) \<noteq> Wall \<and>
    distance (cell g cur) + 1 < distance (cell g n)")
  case False
  then show ?thesis by (auto simp: ucs_neighbor_def Let_def)
next
  case True
  let ?f = "\<lambda>x. x\<lparr>distance := distance (cell g cur) + 1, previousNode := Some cur\<rparr>"
  show ?thesis
  proof (cases "n \<in> set fr")
    case inside: True
    with True show ?thesis
      apply -
      apply (rule disjI2)
      apply (intro conjI exI [of _ ?f] exI [of _ fr])
      apply (simp_all add: ucs_neighbor_def Let_def)
      done
  next
    case False
    with True show ?thesis
      by (intro disjI2 conjI exI [of _ ?f] exI [of _ "fr @ [n]"])
         (simp_all add: ucs_neighbor_def Let_def)
  qed
qed

lemma greedy_neighbor_shape:
  "greedy_neighbor e cur n (g, fr) = (g, fr) \<or>
        (\<not> isVisited (cell g n) \<and> type (cell g n) \<noteq> Wall \<and>
         (\<exists>f fr'. (\<forall>x. isVisited (f x) = isVisited x \<and> type (f x) = type x \<and>
                        previousNode (f x) = Some cur) \<and>
              (fr' = fr \<or> fr' = fr @ [n]) \<and> greedy_neighbor e cur n (g, fr) = (upd g n f, fr')))"
proof (cases "\<not> isVisited (cell g n) \<and> type (cell g n) \<noteq> Wall \<and>
    heuristic (cell g n) = \<infinity>")
  case False
  then show ?thesis by (auto simp: greedy_neighbor_def)
next
  case True
  let ?f = "\<lambda>x. x\<lparr>heuristic := manhattanDistance n e, previousNode := Some cur\<rparr>"
  from True show ?thesis
    by (intro disjI2 conjI exI [of _ ?f] exI [of _ "fr @ [n]"])
       (simp_all add: greedy_neighbor_def)
qed

lemma astar_turn:
  assumes "inv_open g0 s st"
  shows "turn g0 s e (inv_open g0 s) (tree_open s)
           (\<lambda>(g, fr, vis). 5 * unvisited g + length fr) st (astar_body e st)"
proof -
  obtain g fr vis where st: "st = (g, fr, vis)" by (cases st)
  from open_turn [OF assms [unfolded st] _ _ astar_neighbor_shape [where e = e],
      where srt = "sort_key (\<lambda>a. distance (cell g a) + heuristic (cell g a)) fr"
        and e = e]
  show ?thesis by (simp add: st astar_body_def)
qed

lemma ucs_turn:
  assumes "inv_open g0 s st"
  shows "turn g0 s e (inv_open g0 s) (tree_open s)
           (\<lambda>(g, fr, vis). 5 * unvisited g + length fr) st (ucs_body e st)"
proof -
  obtain g fr vis where st: "st = (g, fr, vis)" by (cases st)
  from open_turn [OF assms [unfolded st] _ _ ucs_neighbor_shape,
      where srt = "sort_key (\<lambda>a. distance (cell g a)) fr" and e = e]
  show ?thesis by (simp add: st ucs_body_def)
qed

lemma greedy_turn:
  assumes "inv_open g0 s st"
  shows "turn g0 s e (inv_open g0 s) (tree_open s)
           (\<lambda>(g, fr, vis). 5 * unvisited g + length fr) st (greedy_body e st)"
proof -
  obtain g fr vis where st: "st = (g, fr, vis)" by (cases st)
  from open_turn [OF assms [unfolded st] _ _ greedy_neighbor_shape [where e = e],
      where srt = "sort_key (\<lambda>a. heuristic (cell g a)) fr" and e = e]
  show ?thesis by (simp add: st greedy_body_def)
qed

section \<open>The start of \<open>astar\<close>, \<open>greedyBFS\<close> and \<open>uniformCostSearch\<close>\<close>

lemma open_start:
  assumes "rect g0" and "in_bounds g0 s"
    and f: "\<And>x. isVisited (f x) = isVisited x" "\<And>x. type (f x) = type x"
      "\<And>x. previousNode (f x) = previousNode x"
  shows "inv_open g0 s (upd g0 s f, [s], [])"
    and "fresh g0 \<Longrightarrow> tree_open s (upd g0 s f, [s], [])"
proof -
  define g where "g = upd g0 s f"
  have shape: "same_shape g0 g"
    unfolding g_def using same_shape_refl [OF assms(1)] f(2) by (rule same_shape_upd)
  have cs: "cell g s = f (cell g0 s)"
    unfolding g_def using assms(1,2) by (rule cell_upd_same)
  have other: "cell g p = cell g0 p" if "p \<noteq> s" for p
    unfolding g_def using that by simp
  show "inv_open g0 s (upd g0 s f, [s], [])"
    unfolding g_def [symmetric]
    using shape assms(2) path_between_self [of g0 s]
    by (intro inv_openI) auto
  assume fr: "fresh g0"
  have none: "\<not> isVisited (cell g p)" if "in_bounds g0 p" for p
    using freshD(1) [OF fr assms(1) that] cs f(1) other [of p] by (cases "p = s") simp_all
  have inb: "in_bounds g p = in_bounds g0 p" for p
    using shape by (rule in_bounds_same_shape)
  show "tree_open s (upd g0 s f, [s], [])"
    unfolding g_def [symmetric]
  proof (rule tree_openI)
    show "tree_inv s g"
      unfolding tree_inv_def using none by (auto simp: inb)
    fix q assume "q \<in> set [s]"
    then have "q = s" by simp
    moreover have "previousNode (cell g s) = None"
      using cs f(3) freshD(2) [OF fr assms(1,2)] by simp
    ultimately show "pending g s q"
      unfolding pending_def using none by (simp add: inb)
  qed
qed

section \<open>Results of \<open>bfs\<close>, \<open>dfs\<close>, \<open>astar\<close>, \<open>greedyBFS\<close> and \<open>uniformCostSearch\<close>\<close>

lemma bfs_results:
  assumes "rect g" and "in_bounds g s"
  shows "bfs g s e = Some (r, g') \<Longrightarrow> distinct (visitedNodesInOrder r)"
    and "\<not> (\<exists>ps. path_between g s e ps) \<Longrightarrow>
         \<exists>r g'. bfs g s e = Some (r, g') \<and> \<not> success r \<and> shortestPath r = []"
    and "fresh g \<Longrightarrow>
         \<exists>r g'. bfs g s e = Some (r, g') \<and>
           (success r \<longrightarrow> path_between g s e (shortestPath r)) \<and>
           (\<not> success r \<longrightarrow> shortestPath r = [])"
proof -
  let ?f = "\<lambda>n. n\<lparr>isVisited := True, distance := 0\<rparr>"
  note start = marked_start [OF assms, of ?f, simplified]
  show "bfs g s e = Some (r, g') \<Longrightarrow> distinct (visitedNodesInOrder r)"
    unfolding bfs_def using bfs_turn start(1) by (rule loop_distinct)
  show "\<not> (\<exists>ps. path_between g s e ps) \<Longrightarrow>
         \<exists>r g'. bfs g s e = Some (r, g') \<and> \<not> success r \<and> shortestPath r = []"
    unfolding bfs_def using bfs_turn start(1) by (rule loop_no_path)
  assume "fresh g"
  from start(2) [OF this]
  have "case (upd g s ?f, [s], []) of (g, fr, vis) \<Rightarrow> tree_inv s g" by simp
  with bfs_turn start(1)
  show "\<exists>r g'. bfs g s e = Some (r, g') \<and>
           (success r \<longrightarrow> path_between g s e (shortestPath r)) \<and>
           (\<not> success r \<longrightarrow> shortestPath r = [])"
    unfolding bfs_def by (rule loop_total)
qed

lemma dfs_results:
  assumes "rect g" and "in_bounds g s"
  shows "dfs g s e = Some (r, g') \<Longrightarrow> distinct (visitedNodesInOrder r)"
    and "\<not> (\<exists>ps. path_between g s e ps) \<Longrightarrow>
         \<exists>r g'. dfs g s e = Some (r, g') \<and> \<not> success r \<and> shortestPath r = []"
    and "fresh g \<Longrightarrow>
         \<exists>r g'. dfs g s e = Some (r, g') \<and>
           (success r \<longrightarrow> path_between g s e (shortestPath r)) \<and>
           (\<not> success r \<longrightarrow> shortestPath r = [])"
proof -
  let ?f = "\<lambda>n. n\<lparr>isVisited := True\<rparr>"
  note start = marked_start [OF assms, of ?f, simplified]
  show "dfs g s e = Some (r, g') \<Longrightarrow> distinct (visitedNodesInOrder r)"
    unfolding dfs_def using dfs_turn start(1) by (rule loop_distinct)
  show "\<not> (\<exists>ps. path_between g s e ps) \<Longrightarrow>
         \<exists>r g'. dfs g s e = Some (r, g') \<and> \<not> success r \<and> shortestPath r = []"
    unfolding dfs_def using dfs_turn start(1) by (rule loop_no_path)
  assume "fresh g"
  from start(2) [OF this]
  have "case (upd g s ?f, [s], []) of (g, fr, vis) \<Rightarrow> tree_inv s g" by simp
  with dfs_turn start(1)
  show "\<exists>r g'. dfs g s e = Some (r, g') \<and>
           (success r \<longrightarrow> path_between g s e (shortestPath r)) \<and>
           (\<not> success r \<longrightarrow> shortestPath r = [])"
    unfolding dfs_def by (rule loop_total)
qed

lemma astar_results:
  assumes "rect g" and "in_bounds g s"
  shows "astar g s e = Some (r, g') \<Longrightarrow> distinct (visitedNodesInOrder r)"
    and "\<not> (\<exists>ps. path_between g s e ps) \<Longrightarrow>
         \<exists>r g'. astar g s e = Some (r, g') \<and> \<not> success r \<and> shortestPath r = []"
    and "fresh g \<Longrightarrow>
         \<exists>r g'. astar g s e = Some (r, g') \<and>
           (success r \<longrightarrow> path_between g s e (shortestPath r)) \<and>
           (\<not> success r \<longrightarrow> shortestPath r = [])"
proof -
  let ?f = "\<lambda>n. n\<lparr>distance := 0, heuristic := manhattanDistance s e\<rparr>"
  note start = open_start [OF assms, of ?f, simplified]
  show "astar g s e = Some (r, g') \<Longrightarrow> distinct (visitedNodesInOrder r)"
    unfolding astar_def using astar_turn start(1) by (rule loop_distinct)
  show "\<not> (\<exists>ps. path_between g s e ps) \<Longrightarrow>
         \<exists>r g'. astar g s e = Some (r, g') \<and> \<not> success r \<and> shortestPath r = []"
    unfolding astar_def using astar_turn start(1) by (rule loop_no_path)
  assume "fresh g"
  with astar_turn start(1) start(2)
  show "\<exists>r g'. astar g s e = Some (r, g') \<and>
           (success r \<longrightarrow> path_between g s e (shortestPath r)) \<and>
           (\<not> success r \<longrightarrow> shortestPath r = [])"
    unfolding astar_def by (intro loop_total)
qed

lemma greedyBFS_results:
  assumes "rect g" and "in_bounds g s"
  shows "greedyBFS g s e = Some (r, g') \<Longrightarrow> distinct (visitedNodesInOrder r)"
    and "\<not> (\<exists>ps. path_between g s e ps) \<Longrightarrow>
         \<exists>r g'. greedyBFS g s e = Some (r, g') \<and> \<not> success r \<and> shortestPath r = []"
    and "fresh g \<Longrightarrow>
         \<exists>r g'. greedyBFS g s e = Some (r, g') \<and>
           (success r \<longrightarrow> path_between g s e (shortestPath r)) \<and>
           (\<not> success r \<longrightarrow> shortestPath r = [])"
proof -
  let ?f = "\<lambda>n. n\<lparr>heuristic := manhattanDistance s e\<rparr>"
  note start = open_start [OF assms, of ?f, simplified]
  show "greedyBFS g s e = Some (r, g') \<Longrightarrow> distinct (visitedNodesInOrder r)"
    unfolding greedyBFS_def using greedy_turn start(1) by (rule loop_distinct)
  show "\<not> (\<exists>ps. path_between g s e ps) \<Longrightarrow>
         \<exists>r g'. greedyBFS g s e = Some (r, g') \<and> \<not> success r \<and> shortestPath r = []"
    unfolding greedyBFS_def using greedy_turn start(1) by (rule loop_no_path)
  assume "fresh g"
  with greedy_turn start(1) start(2)
  show "\<exists>r g'. greedyBFS g s e = Some (r, g') \<and>
           (success r \<longrightarrow> path_between g s e (shortestPath r)) \<and>
           (\<not> success r \<longrightarrow> shortestPath r = [])"
    unfolding greedyBFS_def by (intro loop_total)
qed

lemma uniformCostSearch_results:
  assumes "rect g" and "in_bounds g s"
  shows "uniformCostSearch g s e = Some (r, g') \<Longrightarrow> distinct (visitedNodesInOrder r)"
    and "\<not> (\<exists>ps. path_between g s e ps) \<Longrightarrow>
         \<exists>r g'. uniformCostSearch g s e = Some (r, g') \<and> \<not> success r \<and> shortestPath r = []"
    and "fresh g \<Longrightarrow>
         \<exists>r g'. uniformCostSearch g s e = Some (r, g') \<and>
           (success r \<longrightarrow> path_between g s e (shortestPath r)) \<and>
           (\<not> success r \<longrightarrow> shortestPath r = [])"
proof -
  let ?f = "\<lambda>n. n\<lparr>distance := 0\<rparr>"
  note start = open_start [OF assms, of ?f, simplified]
  show "uniformCostSearch g s e = Some (r, g') \<Longrightarrow> distinct (visitedNodesInOrder r)"
    unfolding uniformCostSearch_def using ucs_turn start(1) by (rule loop_distinct)
  show "\<not> (\<exists>ps. path_between g s e ps) \<Longrightarrow>
         \<exists>r g'. uniformCostSearch g s e = Some (r, g') \<and> \<not> success r \<and> shortestPath r = []"
    unfolding uniformCostSearch_def using ucs_turn start(1) by (rule loop_no_path)
  assume "fresh g"
  with ucs_turn start(1) start(2)
  show "\<exists>r g'. uniformCostSearch g s e = Some (r, g') \<and>
           (success r \<longrightarrow> path_between g s e (shortestPath r)) \<and>
           (\<not> success r \<longrightarrow> shortestPath r = [])"
    unfolding uniformCostSearch_def by (intro loop_total)
qed

section \<open>The searches do not change the type of a cell\<close>

lemma fold_kinds:
  fixes step :: "'a \<Rightarrow> grid \<times> 'b \<Rightarrow> grid \<times> 'b"
  assumes "\<And>n g fr. kinds (fst (step n (g, fr))) = kinds g"
  shows "kinds (fst (fold step ns (g, fr))) = kinds g"
proof (rule fold_inv [where P = "\<lambda>st. kinds (fst st) = kinds g"])
  show "kinds (fst (g, fr)) = kinds g" by simp
next
  fix n and st :: "grid \<times> 'b" assume "kinds (fst st) = kinds g"
  with assms [of n "fst st" "snd st"] show "kinds (fst (step n st)) = kinds g" by simp
qed

lemma found_Inl: "found g vis e = Some (Inl x) \<Longrightarrow> snd x = g"
  by (auto simp: found_def)

lemma bfs_neighbor_kinds: "kinds (fst (bfs_neighbor c n (g, fr))) = kinds g"
  by (simp add: bfs_neighbor_def kinds_upd)

lemma dfs_neighbor_kinds: "kinds (fst (dfs_neighbor c n (g, fr))) = kinds g"
  by (simp add: dfs_neighbor_def kinds_upd)

lemma astar_neighbor_kinds: "kinds (fst (astar_neighbor e c n (g, fr))) = kinds g"
  by (simp add: astar_neighbor_def kinds_upd Let_def)

lemma greedy_neighbor_kinds: "kinds (fst (greedy_neighbor e c n (g, fr))) = kinds g"
  by (simp add: greedy_neighbor_def kinds_upd)

lemma ucs_neighbor_kinds: "kinds (fst (ucs_neighbor c n (g, fr))) = kinds g"
  by (simp add: ucs_neighbor_def kinds_upd Let_def)

lemma loop_kinds:
  assumes "while_loop body st = Some x"
    and "\<And>st st'. body st = Some (Inr st') \<Longrightarrow> kinds (fst st') = kinds (fst st)"
    and "\<And>st x. body st = Some (Inl x) \<Longrightarrow> kinds (snd x) = kinds (fst st)"
  shows "kinds (snd x) = kinds (fst st)"
  using assms(1)
proof (rule while_loop_partial [where I = "\<lambda>st'. kinds (fst st') = kinds (fst st)"])
  show "kinds (fst st) = kinds (fst st)" by simp
next
  fix s s' assume "kinds (fst s) = kinds (fst st)" "body s = Some (Inr s')"
  with assms(2) [of s s'] show "kinds (fst s') = kinds (fst st)" by simp
next
  fix s r assume "kinds (fst s) = kinds (fst st)" "body s = Some (Inl r)"
  with assms(3) [of s r] show "kinds (snd r) = kinds (fst st)" by simp
qed

lemma marked_body_kinds:
  fixes out :: "(PathfindingResult \<times> grid) + search_state"
  assumes step: "\<And>n g fr. kinds (fst (step n (g, fr))) = kinds g"
    and out: "(if type (cell g cur) = Wall then Some (Inr (g, fr', vis))
            else if cur = e then found g (vis @ [cur]) e
            else (case fold step ns (g, fr') of
                    (g', fr'') \<Rightarrow> Some (Inr (g', fr'', vis @ [cur])))) = Some out"
  shows "kinds (case out of Inl x \<Rightarrow> snd x | Inr st' \<Rightarrow> fst st') = kinds g"
proof -
  obtain g' fr'' where f: "fold step ns (g, fr') = (g', fr'')"
    by (cases "fold step ns (g, fr')")
  with fold_kinds [of step ns g fr', OF step] have "kinds g' = kinds g" by simp
  have nf: "found g (vis @ [cur]) e \<noteq> Some (Inr st')" for st' :: search_state
    by (rule found_not_Inr)
  have fi: "snd x = g"
    if "(found g (vis @ [cur]) e :: ((PathfindingResult \<times> grid) + search_state) option)
        = Some (Inl x)" for x
    using that by (rule found_Inl)
  from out f nf fi \<open>kinds g' = kinds g\<close> show ?thesis
    by (cases out) (auto split: if_splits)
qed

lemma open_body_kinds:
  fixes out :: "(PathfindingResult \<times> grid) + search_state"
  assumes step: "\<And>cur n g fr. kinds (fst (step cur n (g, fr))) = kinds g"
    and out: "(case srt of
              [] \<Rightarrow> Some (Inl (not_found g vis))
            | cur # rest \<Rightarrow>
                if type (cell g cur) = Wall then Some (Inr (g, rest, vis))
                else if isVisited (cell g cur) then Some (Inr (g, rest, vis))
                else let g1 = upd g cur (\<lambda>n. n\<lparr>isVisited := True\<rparr>) in
                  if cur = e then found g1 (vis @ [cur]) e
                  else (case fold (step cur) (getNeighbors cur g1) (g1, rest) of
                          (g', fr'') \<Rightarrow> Some (Inr (g', fr'', vis @ [cur])))) = Some out"
  shows "kinds (case out of Inl x \<Rightarrow> snd x | Inr st' \<Rightarrow> fst st') = kinds g"
proof (cases srt)
  case Nil
  with out show ?thesis by (auto simp: not_found_def)
next
  case (Cons cur rest)
  define g1 where "g1 = upd g cur (\<lambda>n. n\<lparr>isVisited := True\<rparr>)"
  have k1: "kinds g1 = kinds g" unfolding g1_def by (rule kinds_upd) simp
  obtain g' fr'' where f: "fold (step cur) (getNeighbors cur g1) (g1, rest) = (g', fr'')"
    by (cases "fold (step cur) (getNeighbors cur g1) (g1, rest)")
  with fold_kinds [of "step cur" "getNeighbors cur g1" g1 rest, OF step] k1
  have "kinds g' = kinds g" by simp
  have nf: "found g1 (vis @ [cur]) e \<noteq> Some (Inr st')" for st' :: search_state
    by (rule found_not_Inr)
  have fi: "snd x = g1"
    if "(found g1 (vis @ [cur]) e :: ((PathfindingResult \<times> grid) + search_state) option)
        = Some (Inl x)" for x
    using that by (rule found_Inl)
  from out f k1 Cons nf fi \<open>kinds g' = kinds g\<close> show ?thesis
    by (cases out) (auto simp: Let_def g1_def [symmetric] split: if_splits)
qed


lemma bfs_body_kinds:
  assumes "bfs_body e st = Some out"
  shows "kinds (case out of Inl x \<Rightarrow> snd x | Inr st' \<Rightarrow> fst st') = kinds (fst st)"
proof -
  obtain g fr vis where st: "st = (g, fr, vis)" by (cases st)
  show ?thesis
  proof (cases fr)
    case Nil
    with assms st show ?thesis by (auto simp: bfs_body_def not_found_def)
  next
    case (Cons cur fr')
    with assms st marked_body_kinds [where step = "bfs_neighbor cur" and g = g and cur = cur
        and fr' = fr' and vis = vis and e = e and ns = "getNeighbors cur g" and out = out,
        OF bfs_neighbor_kinds]
    show ?thesis by (simp add: bfs_body_def)
  qed
qed

lemma dfs_body_kinds:
  assumes "dfs_body e st = Some out"
  shows "kinds (case out of Inl x \<Rightarrow> snd x | Inr st' \<Rightarrow> fst st') = kinds (fst st)"
proof -
  obtain g fr vis where st: "st = (g, fr, vis)" by (cases st)
  show ?thesis
  proof (cases "fr = []")
    case True
    with assms st show ?thesis by (auto simp: dfs_body_def not_found_def)
  next
    case False
    with assms st marked_body_kinds [where step = "dfs_neighbor (last fr)" and g = g and cur = "last fr"
        and fr' = "butlast fr" and vis = vis and e = e
        and ns = "rev (getNeighbors (last fr) g)" and out = out, OF dfs_neighbor_kinds]
    show ?thesis by (simp add: dfs_body_def Let_def)
  qed
qed

lemma astar_body_kinds:
  assumes "astar_body e st = Some out"
  shows "kinds (case out of Inl x \<Rightarrow> snd x | Inr st' \<Rightarrow> fst st') = kinds (fst st)"
proof -
  obtain g fr vis where st: "st = (g, fr, vis)" by (cases st)
  from assms st open_body_kinds [where step = "astar_neighbor e"
      and srt = "sort_key (\<lambda>a. distance (cell g a) + heuristic (cell g a)) fr"
      and g = g and vis = vis and e = e and out = out, OF astar_neighbor_kinds]
  show ?thesis by (simp add: astar_body_def)
qed

lemma greedy_body_kinds:
  assumes "greedy_body e st = Some out"
  shows "kinds (case out of Inl x \<Rightarrow> snd x | Inr st' \<Rightarrow> fst st') = kinds (fst st)"
proof -
  obtain g fr vis where st: "st = (g, fr, vis)" by (cases st)
  from assms st open_body_kinds [where step = "greedy_neighbor e"
      and srt = "sort_key (\<lambda>a. heuristic (cell g a)) fr"
      and g = g and vis = vis and e = e and out = out, OF greedy_neighbor_kinds]
  show ?thesis by (simp add: greedy_body_def)
qed

lemma ucs_body_kinds:
  assumes "ucs_body e st = Some out"
  shows "kinds (case out of Inl x \<Rightarrow> snd x | Inr st' \<Rightarrow> fst st') = kinds (fst st)"
proof -
  obtain g fr vis where st: "st = (g, fr, vis)" by (cases st)
  from assms st open_body_kinds [where step = "ucs_neighbor"
      and srt = "sort_key (\<lambda>a. distance (cell g a)) fr"
      and g = g and vis = vis and e = e and out = out, OF ucs_neighbor_kinds]
  show ?thesis by (simp add: ucs_body_def)
qed

lemma body_loop_kinds:
  assumes body: "\<And>st out. body st = Some out \<Longrightarrow>
      kinds (case out of Inl x \<Rightarrow> snd x | Inr st' \<Rightarrow> fst st') = kinds (fst st)"
    and f: "\<And>n. type (f n) = type n"
    and res: "while_loop body (upd g s f, fr, vis) = Some (r, g')"
  shows "kinds g' = kinds g"
proof -
  have "kinds (snd (r, g')) = kinds (fst (upd g s f, fr, vis))"
    using res
  proof (rule loop_kinds)
    fix st st' assume "body st = Some (Inr st')"
    from body [OF this] show "kinds (fst st') = kinds (fst st)" by simp
  next
    fix st x assume "body st = Some (Inl x)"
    from body [OF this] show "kinds (snd x) = kinds (fst st)" by simp
  qed
  with f show ?thesis by (simp add: kinds_upd)
qed

lemma bfs_kinds: "bfs g s e = Some (r, g') \<Longrightarrow> kinds g' = kinds g"
  unfolding bfs_def by (rule body_loop_kinds [OF bfs_body_kinds]) simp_all

lemma dfs_kinds: "dfs g s e = Some (r, g') \<Longrightarrow> kinds g' = kinds g"
  unfolding dfs_def by (rule body_loop_kinds [OF dfs_body_kinds]) simp_all

lemma astar_kinds: "astar g s e = Some (r, g') \<Longrightarrow> kinds g' = kinds g"
  unfolding astar_def by (rule body_loop_kinds [OF astar_body_kinds]) simp_all

lemma greedyBFS_kinds: "greedyBFS g s e = Some (r, g') \<Longrightarrow> kinds g' = kinds g"
  unfolding greedyBFS_def by (rule body_loop_kinds [OF greedy_body_kinds]) simp_all

lemma uniformCostSearch_kinds: "uniformCostSearch g s e = Some (r, g') \<Longrightarrow> kinds g' = kinds g"
  unfolding uniformCostSearch_def by (rule body_loop_kinds [OF ucs_body_kinds]) simp_all

section \<open>\<open>depthLimitedSearch\<close>\<close>

declare depthLimitedSearch.simps [simp del] dls_neighbors.simps [simp del]

lemma extends_trans:
  assumes "extends g g'" and "extends g' g''"
  shows "extends g g''"
proof -
  note A = extendsD [OF assms(1)] and B = extendsD [OF assms(2)]
  have inb: "in_bounds g' p" if "in_bounds g p" for p
    using that A(1,2) by (simp add: in_bounds_def)
  show ?thesis
    unfolding extends_def
  proof (intro conjI allI impI)
    show "rows g'' = rows g" "cols g'' = cols g" using A(1,2) B(1,2) by simp_all
  next
    fix p assume "in_bounds g p"
    with A(3) [of p] B(3) [of p] inb [of p] show "type (cell g'' p) = type (cell g p)" by simp
  next
    fix p assume p: "in_bounds g p \<and> isVisited (cell g p)"
    with A(4) [of p] inb [of p] have v: "in_bounds g' p" "isVisited (cell g' p)" by simp_all
    from B(4) [OF v] show "isVisited (cell g'' p)" .
    from B(5) [OF v] A(5) [of p] p
    show "previousNode (cell g'' p) = previousNode (cell g p)" by simp
  qed
qed

lemma same_shape_extends:
  assumes "same_shape g0 g" and "rect g'" and "extends g g'"
  shows "same_shape g0 g'"
  using assms(2) same_shapeD(2-4) [OF assms(1)] extendsD(1-3) [OF assms(3)]
  unfolding same_shape_def by (simp add: in_bounds_def)

lemma dls_ok_extends:
  assumes "extends g g1" and "dls_ok s e g1 res"
  shows "dls_ok s e g res"
proof -
  obtain ok g' vis' where res: "res = (ok, g', vis')" by (cases res)
  with assms(2) have "extends g1 g'" by (simp add: dls_ok_def)
  with assms(1) have "extends g g'" by (rule extends_trans)
  with assms(2) res show ?thesis by (simp add: dls_ok_def)
qed

lemma tree_mark:
  assumes rect: "rect g" and c: "in_bounds g c"
    and new: "\<not> isVisited (cell g c)" "type (cell g c) \<noteq> Wall"
    and ti: "tree_inv s g" and pc: "pending g s c"
  shows "tree_inv s (upd g c (\<lambda>n. n\<lparr>isVisited := True\<rparr>))"
    and "extends g (upd g c (\<lambda>n. n\<lparr>isVisited := True\<rparr>))"
    and "isVisited (cell (upd g c (\<lambda>n. n\<lparr>isVisited := True\<rparr>)) c)"
    and "walkable (upd g c (\<lambda>n. n\<lparr>isVisited := True\<rparr>)) c"
proof -
  define g1 where "g1 = upd g c (\<lambda>n. n\<lparr>isVisited := True\<rparr>)"
  have c1: "cell g1 c = (cell g c)\<lparr>isVisited := True\<rparr>"
    unfolding g1_def using rect c by (rule cell_upd_same)
  have other: "cell g1 p = cell g p" if "p \<noteq> c" for p
    unfolding g1_def using that by simp
  have ext: "extends g g1"
    unfolding g1_def using new(1) by (rule extends_upd) simp
  then show "extends g (upd g c (\<lambda>n. n\<lparr>isVisited := True\<rparr>))"
    unfolding g1_def .
  show "isVisited (cell (upd g c (\<lambda>n. n\<lparr>isVisited := True\<rparr>)) c)"
    unfolding g1_def [symmetric] by (simp add: c1)
  have cw: "walkable g c" using c new(2) by (simp add: walkable_def)
  have w1: "walkable g1 p" if "walkable g p" for p
    using ext that by (rule walkable_extends)
  from w1 [OF cw] show "walkable (upd g c (\<lambda>n. n\<lparr>isVisited := True\<rparr>)) c"
    unfolding g1_def .
  have "tree_inv s g1"
    using ti ext
  proof (rule tree_inv_extends_new)
    fix p assume "in_bounds g p" "isVisited (cell g1 p)" "\<not> isVisited (cell g p)"
    then have p: "p = c" using other [of p] by (cases "p = c") simp_all
    from pc have "\<exists>ps. tree g1 s c ps"
      unfolding pending_def
    proof (elim disjE conjE exE)
      assume "c = s" "previousNode (cell g c) = None"
      then have "tree g1 s s [s]"
        using c1 c by (intro tree.root) (simp_all add: g1_def)
      with \<open>c = s\<close> show ?thesis by blast
    next
      fix q assume q: "previousNode (cell g c) = Some q" "isVisited (cell g q)"
        "walkable g q" "adjacent q c"
      from q(3) have "in_bounds g q" by (simp add: walkable_def)
      from tree_invD [OF ti this q(2)] obtain ps where "tree g s q ps" ..
      then have "tree g1 s q ps" using ext by (rule tree_extends)
      then have "tree g1 s c (c # ps)"
        using q c1 w1 [OF cw] w1 [OF q(3)]
        by (intro tree.link) simp_all
      then show ?thesis ..
    qed
    with p show "\<exists>ps. tree g1 s p ps" by simp
  qed
  then show "tree_inv s (upd g c (\<lambda>n. n\<lparr>isVisited := True\<rparr>))"
    unfolding g1_def .
qed

lemma tree_link:
  assumes rect: "rect g" and c: "in_bounds g c" "isVisited (cell g c)" "walkable g c"
    and ti: "tree_inv s g" and n: "n \<in> set (getNeighbors c g)"
    and new: "\<not> isVisited (cell g n)"
  shows "tree_inv s (upd g n (\<lambda>x. x\<lparr>previousNode := Some c\<rparr>))"
    and "extends g (upd g n (\<lambda>x. x\<lparr>previousNode := Some c\<rparr>))"
    and "pending (upd g n (\<lambda>x. x\<lparr>previousNode := Some c\<rparr>)) s n"
    and "\<not> isVisited (cell (upd g n (\<lambda>x. x\<lparr>previousNode := Some c\<rparr>)) n)"
proof -
  define g2 where "g2 = upd g n (\<lambda>x. x\<lparr>previousNode := Some c\<rparr>)"
  from getNeighbors_props [OF c(1) n] have n_in: "in_bounds g n" and adj: "adjacent c n"
    by simp_all
  have n2: "cell g2 n = (cell g n)\<lparr>previousNode := Some c\<rparr>"
    unfolding g2_def using rect n_in by (rule cell_upd_same)
  have other: "cell g2 p = cell g p" if "p \<noteq> n" for p
    unfolding g2_def using that by simp
  have vis_same: "isVisited (cell g2 p) = isVisited (cell g p)" for p
    using n2 other [of p] by (cases "p = n") simp_all
  have ext: "extends g g2"
    unfolding g2_def using new by (rule extends_upd) simp
  then show "extends g (upd g n (\<lambda>x. x\<lparr>previousNode := Some c\<rparr>))"
    unfolding g2_def .
  show "\<not> isVisited (cell (upd g n (\<lambda>x. x\<lparr>previousNode := Some c\<rparr>)) n)"
    unfolding g2_def [symmetric] using new by (simp add: vis_same)
  have "tree_inv s g2"
    using ti ext
  proof (rule tree_inv_extends_new)
    fix p assume "isVisited (cell g2 p)" "\<not> isVisited (cell g p)"
    then show "\<exists>ps. tree g2 s p ps" by (simp add: vis_same)
  qed
  then show "tree_inv s (upd g n (\<lambda>x. x\<lparr>previousNode := Some c\<rparr>))"
    unfolding g2_def .
  from extendsD(4) [OF ext c(1,2)] walkable_extends [OF ext c(3)] n2 adj
  have "pending g2 s n" by (intro pendingI [of g2 n c]) simp_all
  then show "pending (upd g n (\<lambda>x. x\<lparr>previousNode := Some c\<rparr>)) s n"
    unfolding g2_def .
qed

lemma dls_inv:
  shows "rect g \<Longrightarrow> in_bounds g c \<Longrightarrow> \<not> isVisited (cell g c) \<Longrightarrow> tree_inv s g \<Longrightarrow>
         pending g s c \<Longrightarrow> dls_ok s e g (depthLimitedSearch g c e maxDepth vis depth)"
    and "rect g \<Longrightarrow> in_bounds g c \<Longrightarrow> isVisited (cell g c) \<Longrightarrow> walkable g c \<Longrightarrow>
         tree_inv s g \<Longrightarrow> set ns \<subseteq> set (getNeighbors c g) \<Longrightarrow>
         dls_ok s e g (dls_neighbors g c ns e maxDepth vis depth)"
proof (induction g c e maxDepth vis depth and g c ns e maxDepth vis depth
    rule: depthLimitedSearch_dls_neighbors.induct)
  case (1 g c e maxDepth vis depth)
  show ?case
  proof (cases "type (cell g c) = Wall")
    case True
    with "1.prems" show ?thesis
      by (subst depthLimitedSearch.simps) (simp add: dls_ok_def extends_refl)
  next
    case False
    define g1 where "g1 = upd g c (\<lambda>n. n\<lparr>isVisited := True\<rparr>)"
    note M = tree_mark [OF "1.prems"(1,2,3) False "1.prems"(4,5), folded g1_def]
    have r1: "rect g1" using "1.prems"(1) by (simp add: g1_def)
    have i1: "in_bounds g1 c" using "1.prems"(2) by (simp add: g1_def)
    have stop: "dls_ok s e g (ok, g1, vis @ [c])" if "ok \<longrightarrow> c = e" for ok
      using that r1 M by (auto simp: dls_ok_def)
    show ?thesis
    proof (cases "c = e \<or> maxDepth \<le> depth")
      case True
      with False stop [of True] stop [of False] show ?thesis
        by (subst depthLimitedSearch.simps) (auto simp: Let_def g1_def [symmetric])
    next
      case go: False
      from go False have
        "dls_ok s e g1 (dls_neighbors g1 c (getNeighbors c g1) e maxDepth (vis @ [c]) depth)"
        using r1 i1 M(1,3,4) by (intro "1.IH" [OF _ g1_def refl]) simp_all
      with M(2)
      have "dls_ok s e g (dls_neighbors g1 c (getNeighbors c g1) e maxDepth (vis @ [c]) depth)"
        by (rule dls_ok_extends)
      with go False show ?thesis
        by (subst depthLimitedSearch.simps) (simp add: Let_def g1_def [symmetric])
    qed
  qed
next
  case (2 g c e maxDepth vis depth)
  then show ?case
    by (subst dls_neighbors.simps) (simp add: dls_ok_def extends_refl)
next
  case (3 g c n rest e maxDepth vis depth)
  from "3.prems"(6) have n: "n \<in> set (getNeighbors c g)"
    and rest: "set rest \<subseteq> set (getNeighbors c g)" by simp_all
  show ?case
  proof (cases "\<not> isVisited (cell g n) \<and> type (cell g n) \<noteq> Wall")
    case False
    from "3.IH"(3) [OF False "3.prems"(1-5) rest] False show ?thesis
      by (subst dls_neighbors.simps) auto
  next
    case True
    define g2 where "g2 = upd g n (\<lambda>x. x\<lparr>previousNode := Some c\<rparr>)"
    from True have new: "\<not> isVisited (cell g n)" by simp
    note L = tree_link [OF "3.prems"(1-5) n new, folded g2_def]
    have r2: "rect g2" using "3.prems"(1) by (simp add: g2_def)
    from getNeighbors_props(1) [OF "3.prems"(2) n] have i2: "in_bounds g2 n"
      by (simp add: g2_def)
    obtain ok g' vis' where d: "depthLimitedSearch g2 n e maxDepth vis (depth + 1) = (ok, g', vis')"
      by (cases "depthLimitedSearch g2 n e maxDepth vis (depth + 1)")
    from "3.IH"(1) [OF True, folded g2_def, OF r2 i2 L(4) L(1) L(3)] d
    have ok: "dls_ok s e g2 (ok, g', vis')" by simp
    show ?thesis
    proof (cases ok)
      case True
      from L(2) ok have "dls_ok s e g (ok, g', vis')" by (rule dls_ok_extends)
      with True \<open>\<not> isVisited (cell g n) \<and> type (cell g n) \<noteq> Wall\<close> d show ?thesis
        by (subst dls_neighbors.simps) (simp add: g2_def [symmetric])
    next
      case False
      from ok have r': "rect g'" and e2: "extends g2 g'" and t': "tree_inv s g'"
        by (simp_all add: dls_ok_def)
      from L(2) e2 have ext: "extends g g'" by (rule extends_trans)
      have i': "in_bounds g' c"
        using "3.prems"(2) extendsD(1,2) [OF ext] by (simp add: in_bounds_def)
      have v': "isVisited (cell g' c)" using extendsD(4) [OF ext "3.prems"(2,3)] .
      have w': "walkable g' c" using ext "3.prems"(4) by (rule walkable_extends)
      have "getNeighbors c g' = getNeighbors c g"
        using extendsD(1,2) [OF ext] by (rule getNeighbors_same_shape)
      with rest have rest': "set rest \<subseteq> set (getNeighbors c g')" by simp
      from "3.IH"(2) [OF True, folded g2_def, OF d [symmetric] refl False r' i' v' w' t' rest']
      have "dls_ok s e g' (dls_neighbors g' c rest e maxDepth vis' depth)" .
      with ext have "dls_ok s e g (dls_neighbors g' c rest e maxDepth vis' depth)"
        by (rule dls_ok_extends)
      with False True d show ?thesis
        by (subst dls_neighbors.simps) (simp add: g2_def [symmetric])
    qed
  qed
qed


section \<open>\<open>iterativeDeepening\<close>\<close>

lemma reset_visited_props:
  assumes "rect g"
  shows "rect (reset_visited g)" "rows (reset_visited g) = rows g"
    "cols (reset_visited g) = cols g"
    "in_bounds g p \<Longrightarrow>
       cell (reset_visited g) p = (cell g p)\<lparr>isVisited := False, previousNode := None\<rparr>"
  using assms by (simp_all add: reset_visited_def cell_map_cells)

lemma reset_visited_start:
  assumes sh: "same_shape g0 g" and s: "in_bounds g0 s"
  shows "same_shape g0 (reset_visited g)" "tree_inv s (reset_visited g)"
    "pending (reset_visited g) s s" "\<not> isVisited (cell (reset_visited g) s)"
    "in_bounds (reset_visited g) s"
proof -
  note S = same_shapeD [OF sh]
  note R = reset_visited_props [OF S(1)]
  have inb: "in_bounds (reset_visited g) p = in_bounds g0 p" for p
    using R(2,3) S(2,3) by (simp add: in_bounds_def)
  have inb': "in_bounds g p = in_bounds g0 p" for p
    using S(2,3) by (simp add: in_bounds_def)
  have c: "cell (reset_visited g) p = (cell g p)\<lparr>isVisited := False, previousNode := None\<rparr>"
    if "in_bounds g0 p" for p
    using that by (intro R(4)) (simp add: inb')
  show "same_shape g0 (reset_visited g)"
    unfolding same_shape_def using R(1-3) S(2-4) c by simp
  have none: "\<not> isVisited (cell (reset_visited g) p)" if "in_bounds g0 p" for p
    using c [OF that] by simp
  show "tree_inv s (reset_visited g)"
    unfolding tree_inv_def using none by (auto simp: inb)
  show "pending (reset_visited g) s s"
    unfolding pending_def using none c [OF s] by (auto simp: inb)
  show "\<not> isVisited (cell (reset_visited g) s)" using c s by simp
  show "in_bounds (reset_visited g) s" using s by (simp add: inb)
qed

lemma idd_step:
  assumes sh: "same_shape g0 g" and s: "in_bounds g0 s"
  shows "(\<exists>x. idd_body s e (g, d, vis) = Some (Inl x) \<and>
            (success (fst x) \<longrightarrow> path_between g0 s e (shortestPath (fst x))) \<and>
            (\<not> success (fst x) \<longrightarrow> shortestPath (fst x) = [])) \<or>
         (\<exists>g' vis'. idd_body s e (g, d, vis) = Some (Inr (g', d + 1, vis')) \<and>
            same_shape g0 g' \<and> d < rows g0 * cols g0)"
proof (cases "d < rows g * cols g")
  case False
  then show ?thesis by (simp add: idd_body_def not_found_def)
next
  case True
  note S = same_shapeD [OF sh]
  note R = reset_visited_start [OF sh s]
  obtain ok g' vis' where
    d: "depthLimitedSearch (reset_visited g) s e d vis 0 = (ok, g', vis')"
    by (cases "depthLimitedSearch (reset_visited g) s e d vis 0")
  from dls_inv(1) [OF same_shapeD(1) [OF R(1)] R(5) R(4) R(2) R(3), of e d vis 0] d
  have ok: "dls_ok s e (reset_visited g) (ok, g', vis')" by simp
  then have r': "rect g'" and ext: "extends (reset_visited g) g'" and ti: "tree_inv s g'"
    by (simp_all add: dls_ok_def)
  from R(1) r' ext have sh': "same_shape g0 g'" by (rule same_shape_extends)
  show ?thesis
  proof (cases ok)
    case False
    with True d sh' S(2,3) show ?thesis by (simp add: idd_body_def)
  next
    case ok_true: True
    with ok have v: "isVisited (cell g' e)" and w: "walkable g' e"
      by (simp_all add: dls_ok_def)
    from w sh' have w0: "walkable g0 e" by (simp add: walkable_same_shape)
    then have "in_bounds g0 e" by (simp add: walkable_def)
    from tree_inv_found [OF ti sh' this v w0] obtain ps where
      "reconstructPath g' e = Some ps" "path_between g0 s e ps" by blast
    with True d ok_true show ?thesis by (simp add: idd_body_def found_def)
  qed
qed

lemma iterativeDeepening_results:
  assumes "rect g" and "in_bounds g s"
  shows "\<exists>r g'. iterativeDeepening g s e = Some (r, g') \<and>
           (success r \<longrightarrow> path_between g s e (shortestPath r)) \<and>
           (\<not> success r \<longrightarrow> shortestPath r = [])"
proof -
  have "\<exists>x. while_loop (idd_body s e) (g, 0, []) = Some x \<and>
           ((success (fst x) \<longrightarrow> path_between g s e (shortestPath (fst x))) \<and>
            (\<not> success (fst x) \<longrightarrow> shortestPath (fst x) = []))"
  proof (rule while_loop_total [where I = "\<lambda>(g', d, vis). same_shape g g'"
        and m = "\<lambda>(g', d, vis). rows g * cols g - d"])
    show "case (g, 0, []) of (g', d, vis) \<Rightarrow> same_shape g g'"
      using assms(1) by (simp add: same_shape_refl)
  next
    fix st :: "grid \<times> nat \<times> pos list"
    assume I: "case st of (g', d, vis) \<Rightarrow> same_shape g g'"
    obtain g1 d vis where st: "st = (g1, d, vis)" by (cases st)
    with I have "same_shape g g1" by simp
    from idd_step [OF this assms(2), of e d vis]
    show "(\<exists>x. idd_body s e st = Some (Inl x) \<and>
             ((success (fst x) \<longrightarrow> path_between g s e (shortestPath (fst x))) \<and>
              (\<not> success (fst x) \<longrightarrow> shortestPath (fst x) = []))) \<or>
          (\<exists>st'. idd_body s e st = Some (Inr st') \<and>
             (case st' of (g', d, vis) \<Rightarrow> same_shape g g') \<and>
             (case st' of (g', d, vis) \<Rightarrow> rows g * cols g - d)
               < (case st of (g', d, vis) \<Rightarrow> rows g * cols g - d))"
      unfolding st by (elim disjE exE conjE) auto
  qed
  then show ?thesis
    unfolding iterativeDeepening_def by (metis prod.collapse)
qed

section \<open>\<open>iterativeDeepening\<close> does not change the type of a cell\<close>

lemma dls_kinds:
  shows "kinds (fst (snd (depthLimitedSearch g c e maxDepth vis depth))) = kinds g"
    and "kinds (fst (snd (dls_neighbors g c ns e maxDepth vis depth))) = kinds g"
proof (induction g c e maxDepth vis depth and g c ns e maxDepth vis depth
    rule: depthLimitedSearch_dls_neighbors.induct)
  case (1 g c e maxDepth vis depth)
  define g1 where "g1 = upd g c (\<lambda>n. n\<lparr>isVisited := True\<rparr>)"
  have k1: "kinds g1 = kinds g" unfolding g1_def by (rule kinds_upd) simp
  show ?case
  proof (cases "type (cell g c) = Wall \<or> c = e \<or> maxDepth \<le> depth")
    case True
    with k1 show ?thesis
      by (subst depthLimitedSearch.simps) (auto simp: Let_def g1_def [symmetric])
  next
    case False
    with "1.IH" [OF _ g1_def refl] k1 show ?thesis
      by (subst depthLimitedSearch.simps) (simp add: Let_def g1_def [symmetric])
  qed
next
  case (2 g c e maxDepth vis depth)
  show ?case by (subst dls_neighbors.simps) simp
next
  case (3 g c n rest e maxDepth vis depth)
  show ?case
  proof (cases "\<not> isVisited (cell g n) \<and> type (cell g n) \<noteq> Wall")
    case False
    with "3.IH"(3) show ?thesis
      by (subst dls_neighbors.simps) auto
  next
    case True
    define g2 where "g2 = upd g n (\<lambda>x. x\<lparr>previousNode := Some c\<rparr>)"
    have k2: "kinds g2 = kinds g" unfolding g2_def by (rule kinds_upd) simp
    obtain ok g' vis' where d: "depthLimitedSearch g2 n e maxDepth vis (depth + 1) = (ok, g', vis')"
      by (cases "depthLimitedSearch g2 n e maxDepth vis (depth + 1)")
    from "3.IH"(1) [OF True, folded g2_def] d k2 have k': "kinds g' = kinds g" by simp
    show ?thesis
    proof (cases ok)
      case ok_true: True
      with True d k' show ?thesis
        by (subst dls_neighbors.simps) (simp add: g2_def [symmetric])
    next
      case False
      from "3.IH"(2) [OF True, folded g2_def, OF d [symmetric] refl False] k'
      have "kinds (fst (snd (dls_neighbors g' c rest e maxDepth vis' depth))) = kinds g"
        by simp
      with False True d show ?thesis
        by (subst dls_neighbors.simps) (simp add: g2_def [symmetric])
    qed
  qed
qed

lemma reset_visited_kinds: "kinds (reset_visited g) = kinds g"
  unfolding reset_visited_def by (rule kinds_map_cells) simp

lemma idd_body_kinds:
  assumes "idd_body s e st = Some out"
  shows "kinds (case out of Inl x \<Rightarrow> snd x | Inr st' \<Rightarrow> fst st') = kinds (fst st)"
proof -
  obtain g d vis where st: "st = (g, d, vis)" by (cases st)
  obtain ok g' vis' where
    r: "depthLimitedSearch (reset_visited g) s e d vis 0 = (ok, g', vis')"
    by (cases "depthLimitedSearch (reset_visited g) s e d vis 0")
  from dls_kinds(1) [of "reset_visited g" s e d vis 0] r
  have k: "kinds g' = kinds g" by (simp add: reset_visited_kinds)
  have nf: "found g' vis' e \<noteq> Some (Inr st')" for st' :: "grid \<times> nat \<times> pos list"
    by (rule found_not_Inr)
  have fi: "snd x = g'"
    if "(found g' vis' e :: ((PathfindingResult \<times> grid) + grid \<times> nat \<times> pos list) option)
        = Some (Inl x)" for x
    using that by (rule found_Inl)
  from assms st r k nf fi show ?thesis
    by (cases out) (auto simp: idd_body_def not_found_def split: if_splits)
qed

lemma iterativeDeepening_kinds:
  assumes "iterativeDeepening g s e = Some (r, g')"
  shows "kinds g' = kinds g"
proof -
  have "kinds (snd (r, g')) = kinds (fst (g, 0::nat, [] :: pos list))"
    using assms [unfolded iterativeDeepening_def]
  proof (rule loop_kinds)
    fix st st' assume "idd_body s e st = Some (Inr st')"
    from idd_body_kinds [OF this] show "kinds (fst st') = kinds (fst st)" by simp
  next
    fix st x assume "idd_body s e st = Some (Inl x)"
    from idd_body_kinds [OF this] show "kinds (snd x) = kinds (fst st)" by simp
  qed
  then show ?thesis by simp
qed

section \<open>The number of turns of the loops\<close>

lemma while_loop_turns:
  fixes m :: "'s \<Rightarrow> nat"
  assumes "I s"
    and step: "\<And>s. I s \<Longrightarrow> exits body s \<or> (\<exists>s'. body s = Some (Inr s') \<and> I s' \<and> m s' < m s)"
  shows "\<exists>n s'. n \<le> m s \<and> turns n body s = Some s' \<and> exits body s'"
  using assms(1)
proof (induction "m s" arbitrary: s rule: less_induct)
  case less
  from step [OF less.prems] show ?case
  proof
    assume "exits body s"
    then have "0 \<le> m s \<and> turns 0 body s = Some s \<and> exits body s" by simp
    then show ?thesis by blast
  next
    assume "\<exists>s'. body s = Some (Inr s') \<and> I s' \<and> m s' < m s"
    then obtain s' where s': "body s = Some (Inr s')" "I s'" "m s' < m s" by blast
    from less.hyps [OF s'(3) s'(2)] obtain n s'' where
      n: "n \<le> m s'" "turns n body s' = Some s''" "exits body s''" by blast
    with s' have "Suc n \<le> m s \<and> turns (Suc n) body s = Some s'' \<and> exits body s''" by simp
    then show ?thesis by blast
  qed
qed

lemma exits_found: "body st = found g vis e \<Longrightarrow> exits body st"
  by (cases "reconstructPath g e") (simp_all add: exits_def found_def)

lemma loop_turns:
  assumes turn: "\<And>st. I st \<Longrightarrow> turn g0 s e I T m st (body st)" and "I st"
  shows "\<exists>n st'. n \<le> m st \<and> turns n body st = Some st' \<and> exits body st'"
  using assms(2)
proof (rule while_loop_turns)
  fix st assume "I st"
  from turn [OF this]
  show "exits body st \<or> (\<exists>st'. body st = Some (Inr st') \<and> I st' \<and> m st' < m st)"
    unfolding turn_def
  proof (elim disjE exE conjE)
    fix g vis assume "body st = Some (Inl (not_found g vis))"
    then show ?thesis by (simp add: exits_def)
  next
    fix g vis assume "body st = found g vis e"
    then show ?thesis by (simp add: exits_found)
  next
    fix st' assume "body st = Some (Inr st')" "I st'" "m st' < m st"
    then show ?thesis by blast
  qed
qed

lemma unvisited_le: "unvisited g \<le> rows g * cols g"
proof -
  have "{p. in_bounds g p \<and> \<not> isVisited (cell g p)} \<subseteq> {..<rows g} \<times> {..<cols g}"
    by (auto simp: in_bounds_def)
  then have "card {p. in_bounds g p \<and> \<not> isVisited (cell g p)}
      \<le> card ({..<rows g} \<times> {..<cols g})"
    by (intro card_mono) simp_all
  then show ?thesis by (simp add: unvisited_def)
qed

lemma bounded_turns:
  assumes "\<exists>n st'. n \<le> k * unvisited (upd g s f) + 1 \<and> turns n body st = Some st' \<and>
             exits body st'"
  shows "\<exists>n st'. n \<le> k * (rows g * cols g) + 1 \<and> turns n body st = Some st' \<and>
             exits body st'"
proof -
  from assms obtain n st' where n: "n \<le> k * unvisited (upd g s f) + 1"
    "turns n body st = Some st'" "exits body st'" by blast
  have "unvisited (upd g s f) \<le> rows g * cols g"
    using unvisited_le [of "upd g s f"] by simp
  then have "k * unvisited (upd g s f) \<le> k * (rows g * cols g)"
    by (rule mult_le_mono2)
  with n(1) have "n \<le> k * (rows g * cols g) + 1" by linarith
  with n(2,3) show ?thesis by blast
qed

lemma bfs_turns:
  assumes "rect g" and "in_bounds g s"
  shows "\<exists>n st'. n \<le> 2 * (rows g * cols g) + 1 \<and>
           turns n (bfs_body e) (upd g s (\<lambda>n. n\<lparr>isVisited := True, distance := 0\<rparr>), [s], [])
             = Some st' \<and> exits (bfs_body e) st'"
proof -
  let ?f = "\<lambda>n. n\<lparr>isVisited := True, distance := 0\<rparr>"
  from loop_turns [OF bfs_turn marked_start(1) [OF assms, of ?f], of e]
  show ?thesis by (intro bounded_turns [where f = ?f]) simp
qed

lemma dfs_turns:
  assumes "rect g" and "in_bounds g s"
  shows "\<exists>n st'. n \<le> 2 * (rows g * cols g) + 1 \<and>
           turns n (dfs_body e) (upd g s (\<lambda>n. n\<lparr>isVisited := True\<rparr>), [s], [])
             = Some st' \<and> exits (dfs_body e) st'"
proof -
  let ?f = "\<lambda>n. n\<lparr>isVisited := True\<rparr>"
  from loop_turns [OF dfs_turn marked_start(1) [OF assms, of ?f], of e]
  show ?thesis by (intro bounded_turns [where f = ?f]) simp
qed

lemma astar_turns:
  assumes "rect g" and "in_bounds g s"
  shows "\<exists>n st'. n \<le> 5 * (rows g * cols g) + 1 \<and>
           turns n (astar_body e)
             (upd g s (\<lambda>n. n\<lparr>distance := 0, heuristic := manhattanDistance s e\<rparr>), [s], [])
             = Some st' \<and> exits (astar_body e) st'"
proof -
  let ?f = "\<lambda>n. n\<lparr>distance := 0, heuristic := manhattanDistance s e\<rparr>"
  from loop_turns [OF astar_turn open_start(1) [OF assms, of ?f], of e]
  show ?thesis by (intro bounded_turns [where f = ?f]) simp
qed

lemma greedy_turns:
  assumes "rect g" and "in_bounds g s"
  shows "\<exists>n st'. n \<le> 5 * (rows g * cols g) + 1 \<and>
           turns n (greedy_body e)
             (upd g s (\<lambda>n. n\<lparr>heuristic := manhattanDistance s e\<rparr>), [s], [])
             = Some st' \<and> exits (greedy_body e) st'"
proof -
  let ?f = "\<lambda>n. n\<lparr>heuristic := manhattanDistance s e\<rparr>"
  from loop_turns [OF greedy_turn open_start(1) [OF assms, of ?f], of e]
  show ?thesis by (intro bounded_turns [where f = ?f]) simp
qed

lemma ucs_turns:
  assumes "rect g" and "in_bounds g s"
  shows "\<exists>n st'. n \<le> 5 * (rows g * cols g) + 1 \<and>
           turns n (ucs_body e) (upd g s (\<lambda>n. n\<lparr>distance := 0\<rparr>), [s], [])
             = Some st' \<and> exits (ucs_body e) st'"
proof -
  let ?f = "\<lambda>n. n\<lparr>distance := 0\<rparr>"
  from loop_turns [OF ucs_turn open_start(1) [OF assms, of ?f], of e]
  show ?thesis by (intro bounded_turns [where f = ?f]) simp
qed

lemma idd_turns:
  assumes "rect g" and "in_bounds g s"
  shows "\<exists>n st'. n \<le> rows g * cols g \<and>
           turns n (idd_body s e) (g, 0, []) = Some st' \<and> exits (idd_body s e) st'"
proof -
  have "\<exists>n st'. n \<le> (case (g, 0::nat, [] :: pos list) of (g', d, vis) \<Rightarrow> rows g * cols g - d) \<and>
      turns n (idd_body s e) (g, 0, []) = Some st' \<and> exits (idd_body s e) st'"
  proof (rule while_loop_turns [where I = "\<lambda>(g', d, vis). same_shape g g'"])
    show "case (g, 0, []) of (g', d, vis) \<Rightarrow> same_shape g g'"
      using assms(1) by (simp add: same_shape_refl)
  next
    fix st :: "grid \<times> nat \<times> pos list"
    assume I: "case st of (g', d, vis) \<Rightarrow> same_shape g g'"
    obtain g1 d vis where st: "st = (g1, d, vis)" by (cases st)
    with I have "same_shape g g1" by simp
    from idd_step [OF this assms(2), of e d vis]
    show "exits (idd_body s e) st \<or>
          (\<exists>st'. idd_body s e st = Some (Inr st') \<and>
             (case st' of (g', d, vis) \<Rightarrow> same_shape g g') \<and>
             (case st' of (g', d, vis) \<Rightarrow> rows g * cols g - d)
               < (case st of (g', d, vis) \<Rightarrow> rows g * cols g - d))"
      unfolding st by (elim disjE exE conjE) (auto simp: exits_def)
  qed
  then show ?thesis by simp
qed

section \<open>Paths, cell by cell\<close>

lemma is_path_cells:
  "is_path g ps \<longleftrightarrow> ps \<noteq> [] \<and> (\<forall>p\<in>set ps. walkable g p) \<and>
     (\<forall>i. Suc i < length ps \<longrightarrow> adjacent (ps ! i) (ps ! Suc i))"
proof (induction g ps rule: is_path.induct)
  case (3 g p q ps)
  have "(\<forall>i. Suc i < length (p # q # ps) \<longrightarrow> adjacent ((p # q # ps) ! i) ((p # q # ps) ! Suc i))
      \<longleftrightarrow> adjacent p q \<and> (\<forall>i. Suc i < length (q # ps) \<longrightarrow> adjacent ((q # ps) ! i) ((q # ps) ! Suc i))"
    (is "?L \<longleftrightarrow> ?R")
  proof
    assume L: ?L
    from L [rule_format, of 0] have "adjacent p q" by simp
    moreover have "adjacent ((q # ps) ! i) ((q # ps) ! Suc i)" if "Suc i < length (q # ps)" for i
      using L [rule_format, of "Suc i"] that by simp
    ultimately show ?R by blast
  next
    assume R: ?R
    show ?L
    proof (intro allI impI)
      fix i assume "Suc i < length (p # q # ps)"
      with R show "adjacent ((p # q # ps) ! i) ((p # q # ps) ! Suc i)"
        by (cases i) simp_all
    qed
  qed
  with 3 show ?case by auto
qed simp_all

lemma walled_in:
  assumes "\<And>q. adjacent s q \<Longrightarrow> \<not> walkable g q" and "s \<noteq> e"
  shows "\<not> (\<exists>ps. path_between g s e ps)"
proof
  assume "\<exists>ps. path_between g s e ps"
  then obtain ps where p: "is_path g ps" "hd ps = s" "last ps = e"
    by (auto simp: path_between_def)
  show False
  proof (cases ps)
    case Nil
    with p(1) show ?thesis by simp
  next
    case (Cons a rest)
    show ?thesis
    proof (cases rest)
      case Nil
      with Cons p(2,3) assms(2) show ?thesis by simp
    next
      case (Cons b rest')
      with \<open>ps = a # rest\<close> p(1,2) have "adjacent s b" "walkable g b"
        by (cases rest'; simp)+
      with assms(1) show ?thesis by blast
    qed
  qed
qed

section \<open>The path a successful search returns\<close>

text \<open>
  Claim C2. On a rectangular grid with the start cell in it and a fresh scratch state
  (no cell visited, no \<open>previousNode\<close> set, as the lifecycle of a run requires), whenever
  one of the six searches returns \<open>success = true\<close>, its \<open>shortestPath\<close> is a path from
  start to end: it is not empty, begins with the start cell and ends with the end cell,
  each of its cells lies in the grid and is not a wall, and each cell is one orthogonal
  step from the cell before it.
\<close>

theorem success_gives_path:
  assumes "rect g" and "in_bounds g s" and "fresh g"
    and "alg \<in> {bfs, dfs, uniformCostSearch, astar, greedyBFS, iterativeDeepening}"
    and "alg g s e = Some (r, g')" and "success r"
  shows "path_between g s e (shortestPath r) \<and>
    shortestPath r \<noteq> [] \<and> hd (shortestPath r) = s \<and> last (shortestPath r) = e \<and>
    (\<forall>p\<in>set (shortestPath r). in_bounds g p \<and> type (cell g p) \<noteq> Wall) \<and>
    (\<forall>i. Suc i < length (shortestPath r) \<longrightarrow>
       adjacent (shortestPath r ! i) (shortestPath r ! Suc i))"
proof -
  have "\<exists>r' g''. alg g s e = Some (r', g'') \<and>
      (success r' \<longrightarrow> path_between g s e (shortestPath r'))"
    using assms(4) bfs_results(3) [OF assms(1-3), of e] dfs_results(3) [OF assms(1-3), of e]
      uniformCostSearch_results(3) [OF assms(1-3), of e] astar_results(3) [OF assms(1-3), of e]
      greedyBFS_results(3) [OF assms(1-3), of e]
      iterativeDeepening_results [OF assms(1,2), of e]
    by (elim insertE emptyE) (simp only:, blast)+
  with assms(5,6) have p: "path_between g s e (shortestPath r)" by auto
  then have "is_path g (shortestPath r)" by (simp add: path_between_def)
  then have "shortestPath r \<noteq> []" "\<forall>p\<in>set (shortestPath r). walkable g p"
    "\<forall>i. Suc i < length (shortestPath r) \<longrightarrow>
       adjacent (shortestPath r ! i) (shortestPath r ! Suc i)"
    unfolding is_path_cells by blast+
  with p show ?thesis by (simp add: path_between_def walkable_def)
qed

theorem success_gives_path_witness:
  "rect (resetGrid 2 3) \<and> in_bounds (resetGrid 2 3) (1, 0) \<and> fresh (resetGrid 2 3) \<and>
   success (fst (the (astar (resetGrid 2 3) (1, 0) (1, 2)))) \<and>
   path_between (resetGrid 2 3) (1, 0) (1, 2)
     (shortestPath (fst (the (astar (resetGrid 2 3) (1, 0) (1, 2)))))"
proof -
  have h1: "rect (resetGrid 2 3)" by code_simp
  have h2: "in_bounds (resetGrid 2 3) (1, 0)" by code_simp
  have h3: "fresh (resetGrid 2 3)" by code_simp
  have h4: "astar \<in> {bfs, dfs, uniformCostSearch, astar, greedyBFS, iterativeDeepening}"
    by simp
  have "astar (resetGrid 2 3) (1, 0) (1, 2) \<noteq> None" by code_simp
  then have h5: "astar (resetGrid 2 3) (1, 0) (1, 2) =
      Some (fst (the (astar (resetGrid 2 3) (1, 0) (1, 2))),
            snd (the (astar (resetGrid 2 3) (1, 0) (1, 2))))"
    by simp
  have h6: "success (fst (the (astar (resetGrid 2 3) (1, 0) (1, 2))))" by code_simp
  from success_gives_path [OF h1 h2 h3 h4 h5 h6] h1 h2 h3 h6 show ?thesis by blast
qed

section \<open>No path, no success\<close>

text \<open>
  Claim C3. On a rectangular grid with the start cell in it, if no path of non-wall
  cells leads from start to end, each of the six searches returns, with
  \<open>success = false\<close> and an empty \<open>shortestPath\<close>.
\<close>

theorem no_path_gives_failure:
  assumes "rect g" and "in_bounds g s" and "\<not> (\<exists>ps. path_between g s e ps)"
    and "alg \<in> {bfs, dfs, uniformCostSearch, astar, greedyBFS, iterativeDeepening}"
  shows "\<exists>r g'. alg g s e = Some (r, g') \<and> \<not> success r \<and> shortestPath r = []"
proof -
  from iterativeDeepening_results [OF assms(1,2), of e] assms(3)
  have "\<exists>r g'. iterativeDeepening g s e = Some (r, g') \<and> \<not> success r \<and> shortestPath r = []"
    by blast
  with assms(4) bfs_results(2) [OF assms(1-3)] dfs_results(2) [OF assms(1-3)]
    uniformCostSearch_results(2) [OF assms(1-3)] astar_results(2) [OF assms(1-3)]
    greedyBFS_results(2) [OF assms(1-3)]
  show ?thesis
    by (elim insertE emptyE) (simp only:)+
qed

theorem no_path_gives_failure_witness:
  "rect blocked_grid \<and> in_bounds blocked_grid (0, 0) \<and>
   \<not> (\<exists>ps. path_between blocked_grid (0, 0) (0, 2) ps) \<and>
   (\<exists>r g'. greedyBFS blocked_grid (0, 0) (0, 2) = Some (r, g') \<and>
      \<not> success r \<and> shortestPath r = [])"
proof -
  have h1: "rect blocked_grid" by code_simp
  have h2: "in_bounds blocked_grid (0, 0)" by code_simp
  have w1: "\<not> walkable blocked_grid (0, 1)" by code_simp
  have w2: "\<not> walkable blocked_grid (1, 0)" by code_simp
  have "\<not> walkable blocked_grid q" if "adjacent (0, 0) q" for q
  proof -
    from that have "q = (0, 1) \<or> q = (1, 0)"
      by (cases q) (auto simp: adjacent_def)
    with w1 w2 show ?thesis by blast
  qed
  moreover have "((0::nat), (0::nat)) \<noteq> (0, 2)" by simp
  ultimately have h3: "\<not> (\<exists>ps. path_between blocked_grid (0, 0) (0, 2) ps)"
    by (rule walled_in)
  have h4: "greedyBFS \<in> {bfs, dfs, uniformCostSearch, astar, greedyBFS, iterativeDeepening}"
    by simp
  from no_path_gives_failure [OF h1 h2 h3 h4] h1 h2 h3 show ?thesis by (intro conjI)
qed

section \<open>No cell is visited twice\<close>

text \<open>
  Claim C7. On a rectangular grid with the start cell in it, the \<open>visitedNodesInOrder\<close>
  that \<open>bfs\<close>, \<open>dfs\<close>, \<open>uniformCostSearch\<close>, \<open>astar\<close> or \<open>greedyBFS\<close> returns contains no
  cell twice. (\<open>iterativeDeepening\<close> is not among them.)
\<close>

theorem visited_has_no_duplicates:
  assumes "rect g" and "in_bounds g s"
    and "alg \<in> {bfs, dfs, uniformCostSearch, astar, greedyBFS}"
    and "alg g s e = Some (r, g')"
  shows "distinct (visitedNodesInOrder r)"
proof -
  from assms(3) consider "alg = bfs" | "alg = dfs" | "alg = uniformCostSearch"
    | "alg = astar" | "alg = greedyBFS"
    by blast
  then show ?thesis
  proof cases
    case 1
    with assms(4) have "bfs g s e = Some (r, g')" by simp
    with assms(1,2) show ?thesis by (rule bfs_results(1))
  next
    case 2
    with assms(4) have "dfs g s e = Some (r, g')" by simp
    with assms(1,2) show ?thesis by (rule dfs_results(1))
  next
    case 3
    with assms(4) have "uniformCostSearch g s e = Some (r, g')" by simp
    with assms(1,2) show ?thesis by (rule uniformCostSearch_results(1))
  next
    case 4
    with assms(4) have "astar g s e = Some (r, g')" by simp
    with assms(1,2) show ?thesis by (rule astar_results(1))
  next
    case 5
    with assms(4) have "greedyBFS g s e = Some (r, g')" by simp
    with assms(1,2) show ?thesis by (rule greedyBFS_results(1))
  qed
qed

theorem visited_has_no_duplicates_witness:
  "rect (resetGrid 2 3) \<and> in_bounds (resetGrid 2 3) (1, 0) \<and>
   length (visitedNodesInOrder (fst (the (dfs (resetGrid 2 3) (1, 0) (1, 2))))) = 5 \<and>
   distinct (visitedNodesInOrder (fst (the (dfs (resetGrid 2 3) (1, 0) (1, 2)))))"
proof -
  have h1: "rect (resetGrid 2 3)" by code_simp
  have h2: "in_bounds (resetGrid 2 3) (1, 0)" by code_simp
  have h3: "dfs \<in> {bfs, dfs, uniformCostSearch, astar, greedyBFS}" by simp
  have "dfs (resetGrid 2 3) (1, 0) (1, 2) \<noteq> None" by code_simp
  then have h4: "dfs (resetGrid 2 3) (1, 0) (1, 2) =
      Some (fst (the (dfs (resetGrid 2 3) (1, 0) (1, 2))),
            snd (the (dfs (resetGrid 2 3) (1, 0) (1, 2))))"
    by simp
  have l: "length (visitedNodesInOrder (fst (the (dfs (resetGrid 2 3) (1, 0) (1, 2))))) = 5"
    by code_simp
  from visited_has_no_duplicates [OF h1 h2 h3 h4] h1 h2 l show ?thesis by (intro conjI)
qed

section \<open>Termination\<close>

text \<open>
  Claim C8. On a rectangular grid with the start cell in it, the main loop of \<open>bfs\<close> and
  of \<open>dfs\<close> leaves after at most \<open>2 * R * C + 1\<close> complete turns, that of
  \<open>uniformCostSearch\<close>, \<open>astar\<close> and \<open>greedyBFS\<close> after at most \<open>5 * R * C + 1\<close>, and the
  loop of \<open>iterativeDeepening\<close> after at most \<open>R * C\<close> complete turns, each of which calls
  \<open>depthLimitedSearch\<close>, a recursion that terminates (it is a total function).
  \<open>iterativeDeepening\<close> returns a result; so do the other five when the scratch state is
  fresh, so that \<open>reconstructPath\<close> meets no \<open>previousNode\<close> of an earlier run.
\<close>

theorem searches_terminate:
  assumes "rect g" and "in_bounds g s"
  shows "(\<exists>n st. n \<le> 2 * (rows g * cols g) + 1 \<and>
      turns n (bfs_body e) (upd g s (\<lambda>n. n\<lparr>isVisited := True, distance := 0\<rparr>), [s], [])
        = Some st \<and> exits (bfs_body e) st) \<and>
    (\<exists>n st. n \<le> 2 * (rows g * cols g) + 1 \<and>
      turns n (dfs_body e) (upd g s (\<lambda>n. n\<lparr>isVisited := True\<rparr>), [s], [])
        = Some st \<and> exits (dfs_body e) st) \<and>
    (\<exists>n st. n \<le> 5 * (rows g * cols g) + 1 \<and>
      turns n (ucs_body e) (upd g s (\<lambda>n. n\<lparr>distance := 0\<rparr>), [s], [])
        = Some st \<and> exits (ucs_body e) st) \<and>
    (\<exists>n st. n \<le> 5 * (rows g * cols g) + 1 \<and>
      turns n (astar_body e)
        (upd g s (\<lambda>n. n\<lparr>distance := 0, heuristic := manhattanDistance s e\<rparr>), [s], [])
        = Some st \<and> exits (astar_body e) st) \<and>
    (\<exists>n st. n \<le> 5 * (rows g * cols g) + 1 \<and>
      turns n (greedy_body e)
        (upd g s (\<lambda>n. n\<lparr>heuristic := manhattanDistance s e\<rparr>), [s], [])
        = Some st \<and> exits (greedy_body e) st) \<and>
    (\<exists>n st. n \<le> rows g * cols g \<and>
      turns n (idd_body s e) (g, 0, []) = Some st \<and> exits (idd_body s e) st) \<and>
    (\<exists>r. iterativeDeepening g s e = Some r) \<and>
    (fresh g \<longrightarrow> (\<exists>r. bfs g s e = Some r) \<and> (\<exists>r. dfs g s e = Some r) \<and>
       (\<exists>r. uniformCostSearch g s e = Some r) \<and> (\<exists>r. astar g s e = Some r) \<and>
       (\<exists>r. greedyBFS g s e = Some r))"
proof -
  have "\<exists>r. iterativeDeepening g s e = Some r"
    using iterativeDeepening_results [OF assms, of e] by blast
  moreover have "fresh g \<longrightarrow> (\<exists>r. bfs g s e = Some r) \<and> (\<exists>r. dfs g s e = Some r) \<and>
       (\<exists>r. uniformCostSearch g s e = Some r) \<and> (\<exists>r. astar g s e = Some r) \<and>
       (\<exists>r. greedyBFS g s e = Some r)"
  proof
    assume f: "fresh g"
    from bfs_results(3) [OF assms f, of e] dfs_results(3) [OF assms f, of e]
      uniformCostSearch_results(3) [OF assms f, of e] astar_results(3) [OF assms f, of e]
      greedyBFS_results(3) [OF assms f, of e]
    show "(\<exists>r. bfs g s e = Some r) \<and> (\<exists>r. dfs g s e = Some r) \<and>
       (\<exists>r. uniformCostSearch g s e = Some r) \<and> (\<exists>r. astar g s e = Some r) \<and>
       (\<exists>r. greedyBFS g s e = Some r)"
      by blast
  qed
  ultimately show ?thesis
    using bfs_turns [OF assms, of e] dfs_turns [OF assms, of e] ucs_turns [OF assms, of e]
      astar_turns [OF assms, of e] greedy_turns [OF assms, of e] idd_turns [OF assms, of e]
    by (intro conjI)
qed

theorem searches_terminate_witness:
  "rect (resetGrid 2 3) \<and> in_bounds (resetGrid 2 3) (1, 0) \<and> fresh (resetGrid 2 3) \<and>
   (\<exists>r. iterativeDeepening (resetGrid 2 3) (1, 0) (1, 2) = Some r) \<and>
   (\<exists>r. bfs (resetGrid 2 3) (1, 0) (1, 2) = Some r) \<and>
   (\<exists>r. dfs (resetGrid 2 3) (1, 0) (1, 2) = Some r) \<and>
   (\<exists>r. uniformCostSearch (resetGrid 2 3) (1, 0) (1, 2) = Some r) \<and>
   (\<exists>r. astar (resetGrid 2 3) (1, 0) (1, 2) = Some r) \<and>
   (\<exists>r. greedyBFS (resetGrid 2 3) (1, 0) (1, 2) = Some r)"
proof -
  have h1: "rect (resetGrid 2 3)" by code_simp
  have h2: "in_bounds (resetGrid 2 3) (1, 0)" by code_simp
  have h3: "fresh (resetGrid 2 3)" by code_simp
  from searches_terminate [OF h1 h2, of "(1, 2)"] h1 h2 h3 show ?thesis by blast
qed

section \<open>The searches leave the cell types alone\<close>

text \<open>
  Claim C10. Whatever grid one of the six searches is run on, in the grid it leaves
  every cell has the \<open>type\<close> it had before: the searches write \<open>isVisited\<close>, \<open>distance\<close>,
  \<open>heuristic\<close> and \<open>previousNode\<close> only.
\<close>

theorem search_keeps_types:
  assumes "alg \<in> {bfs, dfs, uniformCostSearch, astar, greedyBFS, iterativeDeepening}"
    and "alg g s e = Some (r, g')"
  shows "map (map type) g' = map (map type) g"
proof -
  from assms bfs_kinds [of g s e r g'] dfs_kinds [of g s e r g']
    uniformCostSearch_kinds [of g s e r g'] astar_kinds [of g s e r g']
    greedyBFS_kinds [of g s e r g'] iterativeDeepening_kinds [of g s e r g']
  have "kinds g' = kinds g"
    by (elim insertE emptyE) auto
  then show ?thesis by (simp add: kinds_def)
qed

theorem search_keeps_types_witness:
  "map (map type) (snd (the (iterativeDeepening idd_grid (0, 0) (4, 0)))) =
     map (map type) idd_grid \<and>
   snd (the (iterativeDeepening idd_grid (0, 0) (4, 0))) \<noteq> idd_grid"
proof -
  have h1: "iterativeDeepening \<in> {bfs, dfs, uniformCostSearch, astar, greedyBFS, iterativeDeepening}"
    by simp
  have "iterativeDeepening idd_grid (0, 0) (4, 0) \<noteq> None" by code_simp
  then have h2: "iterativeDeepening idd_grid (0, 0) (4, 0) =
      Some (fst (the (iterativeDeepening idd_grid (0, 0) (4, 0))),
            snd (the (iterativeDeepening idd_grid (0, 0) (4, 0))))"
    by simp
  have ne: "snd (the (iterativeDeepening idd_grid (0, 0) (4, 0))) \<noteq> idd_grid" by code_simp
  from search_keeps_types [OF h1 h2] ne show ?thesis by (intro conjI)
qed

end
